theory Spec2Isabelle
  imports Complex_Main
begin

section \<open>Binary64 numbers\<close>

text \<open>
  The component \<open>OverflowWc\<close> (file \<open>src/item-overflow-v2.ts\<close>) computes with
  JavaScript numbers, which are IEEE 754 binary64 numbers. Every finite one is a
  rational, and an operation gives the exact result rounded to the nearest
  binary64 number. Negative zero behaves as zero in every operation the component
  uses and is identified with it.
\<close>

text \<open>Rounding a rational to the nearest integer, a tie going to the even one.\<close>

definition round_half_even :: "rat \<Rightarrow> int" where
  "round_half_even q =
     (let f = \<lfloor>q\<rfloor>; d = q - of_int f
      in if d < 1 / 2 then f else if 1 / 2 < d then f + 1 else if even f then f else f + 1)"

text \<open>
  The unit in the last place of a positive rational \<open>x\<close>: the power of two \<open>u\<close> with
  \<open>2^52 * u \<le> x < 2^53 * u\<close>, but not below \<open>2^-1074\<close> (the subnormal numbers) and
  not above \<open>2^972\<close> (where every number overflows). It is searched upwards or
  downwards from \<open>1\<close>; \<open>n\<close> counts the steps.
\<close>

function ulp_up :: "rat \<Rightarrow> nat \<Rightarrow> rat \<Rightarrow> rat" where
  "ulp_up x n u = (if 9007199254740992 * u \<le> x \<and> n < 972 then ulp_up x (n + 1) (2 * u) else u)"
  by pat_completeness auto
termination
  by (relation "measure (\<lambda>(x, n, u). 972 - n)") auto

function ulp_down :: "rat \<Rightarrow> nat \<Rightarrow> rat \<Rightarrow> rat" where
  "ulp_down x n u =
     (if x < 4503599627370496 * u \<and> n < 1074 then ulp_down x (n + 1) (u / 2) else u)"
  by pat_completeness auto
termination
  by (relation "measure (\<lambda>(x, n, u). 1074 - n)") auto

declare ulp_up.simps [simp del] ulp_down.simps [simp del]

definition ulp :: "rat \<Rightarrow> rat" where
  "ulp x = (if 4503599627370496 \<le> x then ulp_up x 0 1 else ulp_down x 0 1)"

text \<open>
  Rounding to the nearest binary64 number, ties to even: the magnitude is rounded to
  a multiple of its unit in the last place. A result of magnitude \<open>2^1024\<close> or
  more is an overflow (\<open>None\<close>). The bound \<open>2^1024\<close> is written out.
\<close>

definition round_pos :: "rat \<Rightarrow> rat" where
  "round_pos x = (if x = 0 then 0 else of_int (round_half_even (x / ulp x)) * ulp x)"

definition overflow_bound :: rat where
  "overflow_bound = 179769313486231590772930519078902473361797697894230657273430081157732675805500963132708477322407536021120113879871393357658789768814416622492847430639474124377767893424865485276302219601246094119453082952085005768838150682342462881473913110540827237163350510684586298239947245938479716304835356329624224137216"

definition round64 :: "rat \<Rightarrow> rat option" where
  "round64 x =
     (let y = (if x < 0 then - round_pos (- x) else round_pos x)
      in if \<bar>y\<bar> < overflow_bound then Some y else None)"

subsection \<open>Properties of the rounding\<close>

lemma overflow_bound_eq: "overflow_bound = 2 ^ 1024" by (simp add: overflow_bound_def)

lemma p2_Suc: "(2::rat) powi (t + 1) = 2 * 2 powi t"
  by (simp add: power_int_add)

lemma p2_pred: "(2::rat) powi (t - 1) = 2 powi t / 2"
  by (simp add: power_int_diff)

lemma p2_mono: "s \<le> t \<Longrightarrow> (2::rat) powi s \<le> 2 powi t"
  by (rule power_int_increasing) simp_all

text \<open>Rounding to an integer is monotone and leaves integers as they are.\<close>

lemma round_half_even_of_int: "round_half_even (of_int n) = n"
  by (simp add: round_half_even_def)

lemma round_half_even_bounds: "\<lfloor>q\<rfloor> \<le> round_half_even q \<and> round_half_even q \<le> \<lfloor>q\<rfloor> + 1"
  by (simp add: round_half_even_def Let_def)

lemma round_half_even_mono:
  assumes "a \<le> b"
  shows "round_half_even a \<le> round_half_even b"
proof (cases "\<lfloor>a\<rfloor> = \<lfloor>b\<rfloor>")
  case True
  with assms have "a - of_int \<lfloor>a\<rfloor> \<le> b - of_int \<lfloor>b\<rfloor>" by simp
  with True show ?thesis by (auto simp: round_half_even_def Let_def)
next
  case False
  with assms have "\<lfloor>a\<rfloor> + 1 \<le> \<lfloor>b\<rfloor>" using floor_mono [OF assms] by linarith
  with round_half_even_bounds [of a] round_half_even_bounds [of b] show ?thesis by linarith
qed

text \<open>
  The search finds a power of two between \<open>2^-1074\<close> and \<open>2^972\<close> that bounds the
  number as stated, unless it stopped at one of the two ends.
\<close>

lemma ulp_up_spec:
  assumes "u = 2 powi int n" and "n \<le> 972" and "2 ^ 52 * u \<le> x"
  shows "\<exists>t. ulp_up x n u = 2 powi t \<and> int n \<le> t \<and> t \<le> 972 \<and> 2 ^ 52 * 2 powi t \<le> x
             \<and> (t < 972 \<longrightarrow> x < 2 ^ 53 * 2 powi t)"
  using assms
proof (induction x n u rule: ulp_up.induct)
  case (1 x n u)
  show ?case
  proof (cases "9007199254740992 * u \<le> x \<and> n < 972")
    case True
    have a: "2 * u = 2 powi int (n + 1)" using "1.prems"(1) by (simp add: power_int_add)
    have b: "n + 1 \<le> 972" using True by simp
    have c: "2 ^ 52 * (2 * u) \<le> x" using True by simp
    from "1.IH" [OF True a b c] obtain t where
      "ulp_up x (n + 1) (2 * u) = 2 powi t" "int (n + 1) \<le> t" "t \<le> 972"
      "2 ^ 52 * 2 powi t \<le> x" "t < 972 \<longrightarrow> x < 2 ^ 53 * 2 powi t" by blast
    with True show ?thesis
      by (subst ulp_up.simps) (intro exI [of _ t], simp)
  next
    case False
    then have r: "ulp_up x n u = u" by (subst ulp_up.simps) auto
    from False have "int n < 972 \<longrightarrow> x < 2 ^ 53 * u" by auto
    with "1.prems" r show ?thesis by (intro exI [of _ "int n"]) simp
  qed
qed

lemma ulp_down_spec:
  assumes "u = 2 powi (- int n)" and "n \<le> 1074" and "x < 2 ^ 53 * u"
  shows "\<exists>t. ulp_down x n u = 2 powi t \<and> - 1074 \<le> t \<and> t \<le> - int n \<and> x < 2 ^ 53 * 2 powi t
             \<and> (- 1074 < t \<longrightarrow> 2 ^ 52 * 2 powi t \<le> x)"
  using assms
proof (induction x n u rule: ulp_down.induct)
  case (1 x n u)
  show ?case
  proof (cases "x < 4503599627370496 * u \<and> n < 1074")
    case True
    have "- int (n + 1) = - int n - 1" by simp
    then have a: "u / 2 = 2 powi (- int (n + 1))"
      using "1.prems"(1) by (simp only: p2_pred)
    have b: "n + 1 \<le> 1074" using True by simp
    have c: "x < 2 ^ 53 * (u / 2)" using True by simp
    from "1.IH" [OF True a b c] obtain t where
      "ulp_down x (n + 1) (u / 2) = 2 powi t" "- 1074 \<le> t" "t \<le> - int (n + 1)"
      "x < 2 ^ 53 * 2 powi t" "- 1074 < t \<longrightarrow> 2 ^ 52 * 2 powi t \<le> x" by blast
    with True show ?thesis
      by (subst ulp_down.simps) (intro exI [of _ t], simp)
  next
    case False
    then have r: "ulp_down x n u = u" by (subst ulp_down.simps) auto
    from False have "- 1074 < - int n \<longrightarrow> 2 ^ 52 * u \<le> x" by auto
    with "1.prems" r show ?thesis by (intro exI [of _ "- int n"]) simp
  qed
qed

lemma ulp_spec:
  "\<exists>t. ulp x = 2 powi t \<and> - 1074 \<le> t \<and> t \<le> 972
       \<and> (t < 972 \<longrightarrow> x < 2 ^ 53 * 2 powi t) \<and> (- 1074 < t \<longrightarrow> 2 ^ 52 * 2 powi t \<le> x)"
proof (cases "4503599627370496 \<le> x")
  case True
  then have "2 ^ 52 * 1 \<le> x" by simp
  from ulp_up_spec [of 1 0 x, OF _ _ this] obtain t where
    "ulp_up x 0 1 = 2 powi t" "0 \<le> t" "t \<le> 972" "2 ^ 52 * 2 powi t \<le> x"
    "t < 972 \<longrightarrow> x < 2 ^ 53 * 2 powi t" by auto
  with True show ?thesis by (intro exI [of _ t]) (simp add: ulp_def)
next
  case False
  then have "x < 2 ^ 53 * 1" by simp
  from ulp_down_spec [of 1 0 x, OF _ _ this] obtain t where
    "ulp_down x 0 1 = 2 powi t" "- 1074 \<le> t" "t \<le> 0" "x < 2 ^ 53 * 2 powi t"
    "- 1074 < t \<longrightarrow> 2 ^ 52 * 2 powi t \<le> x" by auto
  with False show ?thesis by (intro exI [of _ t]) (simp add: ulp_def)
qed

text \<open>
  Rounding is monotone on the non-negative rationals, and rounding a rounded number
  again changes nothing.
\<close>

lemma round_pos_nonneg: "0 \<le> x \<Longrightarrow> 0 \<le> round_pos x"
proof -
  assume x: "0 \<le> x"
  from ulp_spec [of x] obtain t where u: "ulp x = 2 powi t" by blast
  have "0 \<le> x / ulp x" using x u by simp
  then have "round_half_even 0 \<le> round_half_even (x / ulp x)" by (rule round_half_even_mono)
  then have "0 \<le> round_half_even (x / ulp x)" using round_half_even_of_int [of 0] by simp
  then show ?thesis using u by (simp add: round_pos_def)
qed

lemma round_pos_upper:
  assumes "x \<noteq> 0" and "ulp x = 2 powi t" and "x < 2 ^ 53 * 2 powi t"
  shows "round_pos x \<le> 2 ^ 53 * 2 powi t"
proof -
  have "x / 2 powi t \<le> of_int (2 ^ 53)" using assms(3) by (simp add: field_simps)
  then have "round_half_even (x / 2 powi t) \<le> round_half_even (of_int (2 ^ 53))"
    by (rule round_half_even_mono)
  then have "round_half_even (x / 2 powi t) \<le> 2 ^ 53" by (simp only: round_half_even_of_int)
  then have "(of_int (round_half_even (x / 2 powi t)) :: rat) \<le> of_int (2 ^ 53)"
    by (simp only: of_int_le_iff)
  then have "(of_int (round_half_even (x / 2 powi t)) :: rat) * 2 powi t \<le> of_int (2 ^ 53) * 2 powi t"
    by (intro mult_right_mono) simp_all
  with assms(1,2) show ?thesis by (simp add: round_pos_def)
qed

lemma round_pos_lower:
  assumes "x \<noteq> 0" and "ulp x = 2 powi t" and "2 ^ 52 * 2 powi t \<le> x"
  shows "2 ^ 52 * 2 powi t \<le> round_pos x"
proof -
  have "of_int (2 ^ 52) \<le> x / 2 powi t" using assms(3) by (simp add: field_simps)
  then have "round_half_even (of_int (2 ^ 52)) \<le> round_half_even (x / 2 powi t)"
    by (rule round_half_even_mono)
  then have "2 ^ 52 \<le> round_half_even (x / 2 powi t)" by (simp only: round_half_even_of_int)
  then have "(of_int (2 ^ 52) :: rat) \<le> of_int (round_half_even (x / 2 powi t))"
    by (simp only: of_int_le_iff)
  then have "(of_int (2 ^ 52) :: rat) * 2 powi t \<le> of_int (round_half_even (x / 2 powi t)) * 2 powi t"
    by (intro mult_right_mono) simp_all
  with assms(1,2) show ?thesis by (simp add: round_pos_def)
qed


lemma round_pos_idem:
  assumes "0 \<le> x" and "round_pos x < 2 ^ 1024"
  shows "round_pos (round_pos x) = round_pos x"
proof (cases "round_pos x = 0")
  case True
  then show ?thesis by (simp add: round_pos_def)
next
  case False
  let ?y = "round_pos x"
  from False have x0: "x \<noteq> 0" by (auto simp: round_pos_def)
  with assms have x: "0 < x" by simp
  from ulp_spec [of x] obtain s where s: "ulp x = 2 powi s" "- 1074 \<le> s" "s \<le> 972"
    "s < 972 \<longrightarrow> x < 2 ^ 53 * 2 powi s" "- 1074 < s \<longrightarrow> 2 ^ 52 * 2 powi s \<le> x" by blast
  from ulp_spec [of ?y] obtain t where t: "ulp ?y = 2 powi t" "- 1074 \<le> t" "t \<le> 972"
    "t < 972 \<longrightarrow> ?y < 2 ^ 53 * 2 powi t" "- 1074 < t \<longrightarrow> 2 ^ 52 * 2 powi t \<le> ?y" by blast
  define m where "m = round_half_even (x / 2 powi s)"
  have y: "?y = of_int m * 2 powi s" using x0 s(1) by (simp add: round_pos_def m_def)
  have step: "(2::rat) ^ 53 * 2 powi a \<le> 2 ^ 52 * 2 powi b" if "a < b" for a b :: int
  proof -
    from that have "(2::rat) powi (a + 1) \<le> 2 powi b" by (intro p2_mono) simp
    then show ?thesis by (simp add: p2_Suc)
  qed
  have st: "s \<le> t"
  proof (rule ccontr)
    assume "\<not> s \<le> t"
    then have ts: "t < s" by simp
    with s t have "2 ^ 52 * 2 powi s \<le> x" and "?y < 2 ^ 53 * 2 powi t" by simp_all
    with round_pos_lower [OF x0 s(1)] step [OF ts] show False by linarith
  qed
  show ?thesis
  proof (cases "s = t")
    case True
    have "?y / 2 powi t = of_int m" using True y by simp
    then have "round_half_even (?y / 2 powi t) = m" by (simp only: round_half_even_of_int)
    with False t(1) True y show ?thesis by (simp add: round_pos_def)
  next
    case ne: False
    with st have lt: "s < t" by simp
    with s t have up: "x < 2 ^ 53 * 2 powi s" and lo: "2 ^ 52 * 2 powi t \<le> ?y" by simp_all
    from round_pos_upper [OF x0 s(1) up] step [OF lt] lo
    have eq: "?y = 2 ^ 52 * 2 powi t" by linarith
    then have "?y / 2 powi t = of_int (2 ^ 52)" by simp
    then have "round_half_even (?y / 2 powi t) = 2 ^ 52" by (simp only: round_half_even_of_int)
    with False t(1) eq show ?thesis by (simp add: round_pos_def)
  qed
qed

lemma round_pos_0: "round_pos 0 = 0"
  by (simp add: round_pos_def)

lemma round64_0: "round64 0 = Some 0"
  by (simp add: round64_def round_pos_0 overflow_bound_eq)

lemma round64_idem:
  assumes "round64 x = Some y"
  shows "round64 y = Some y"
proof (cases "x < 0")
  case True
  with assms have y: "y = - round_pos (- x)" and b: "round_pos (- x) < 2 ^ 1024"
    using round_pos_nonneg [of "- x"]
    by (auto simp: round64_def Let_def overflow_bound_eq split: if_splits)
  from True have nx: "0 \<le> - x" by simp
  note i = round_pos_idem [OF nx b]
  show ?thesis
  proof (cases "round_pos (- x) = 0")
    case True
    with y show ?thesis by (simp add: round64_0)
  next
    case False
    with round_pos_nonneg [OF nx] have "y < 0" using y by simp
    with y i b round_pos_nonneg [OF nx] show ?thesis
      by (simp add: round64_def Let_def overflow_bound_eq)
  qed
next
  case False
  with assms have y: "y = round_pos x" and b: "round_pos x < 2 ^ 1024"
    using round_pos_nonneg [of x]
    by (auto simp: round64_def Let_def overflow_bound_eq split: if_splits)
  from False have nx: "0 \<le> x" by simp
  from round_pos_idem [OF nx b] round_pos_nonneg [OF nx] y b show ?thesis
    by (simp add: round64_def Let_def overflow_bound_eq)
qed

text \<open>A number that is a whole multiple of its unit in the last place is not changed.\<close>

lemma round_pos_exact:
  assumes "0 < x" and "\<And>t. ulp x = 2 powi t \<Longrightarrow> \<exists>k. x / 2 powi t = of_int k"
  shows "round_pos x = x"
proof -
  from ulp_spec [of x] obtain t where t: "ulp x = 2 powi t" by blast
  from assms(2) [OF t] obtain k where k: "x / 2 powi t = of_int k" by blast
  then have "round_half_even (x / 2 powi t) = k" by (simp only: round_half_even_of_int)
  moreover from k have "x = of_int k * 2 powi t" by (simp add: field_simps)
  ultimately show ?thesis using assms(1) t by (simp add: round_pos_def)
qed

lemma round_pos_int:
  assumes "0 < n" and "n \<le> 2 ^ 53"
  shows "round_pos (of_int n) = of_int n"
proof (rule round_pos_exact)
  show "0 < (of_int n :: rat)" using assms(1) by simp
next
  fix t assume u: "ulp (of_int n) = 2 powi t"
  from ulp_spec [of "of_int n"] obtain s where s: "ulp (of_int n) = 2 powi s"
    "s < 972 \<longrightarrow> of_int n < 2 ^ 53 * (2::rat) powi s"
    "- 1074 < s \<longrightarrow> 2 ^ 52 * (2::rat) powi s \<le> of_int n" by blast
  from s(1) u have st: "s = t"
    by (metis power_int_increasing power_int_strict_increasing linorder_neqE_linordered_idom
        less_irrefl one_less_numeral_iff semiring_norm(76) order_less_imp_le)
  have n53: "(of_int n :: rat) \<le> 2 ^ 53" using assms(2) by (metis of_int_le_iff of_int_numeral of_int_power)
  show "\<exists>k. (of_int n :: rat) / 2 powi t = of_int k"
  proof (cases "t \<le> 0")
    case True
    then have "(2::rat) powi t = 1 / 2 ^ nat (- t)"
      by (simp add: power_int_def field_simps)
    then have "(of_int n :: rat) / 2 powi t = of_int (n * 2 ^ nat (- t))" by simp
    then show ?thesis by blast
  next
    case False
    then have t1: "1 \<le> t" by simp
    then have "- 1074 < s" using st by simp
    with s(3) st have lo: "2 ^ 52 * (2::rat) powi t \<le> of_int n" by simp
    have "(2::rat) powi 1 \<le> 2 powi t" using t1 by (rule p2_mono)
    then have "(2::rat) \<le> 2 powi t" by simp
    with lo n53 have p2: "(2::rat) powi t = 2" by simp
    with lo n53 have "(of_int n :: rat) = 2 ^ 53" by simp
    with p2 have "(of_int n :: rat) / 2 powi t = of_int (2 ^ 52)" by simp
    then show ?thesis by blast
  qed
qed

lemma round64_int: "\<bar>n\<bar> \<le> 2 ^ 53 \<Longrightarrow> round64 (of_int n) = Some (of_int n)"
proof -
  assume a: "\<bar>n\<bar> \<le> 2 ^ 53"
  consider "n = 0" | "0 < n" | "n < 0" by linarith
  then show ?thesis
  proof cases
    case 1
    then show ?thesis by (simp add: round64_0)
  next
    case 2
    with a round_pos_int [of n] show ?thesis
      by (simp add: round64_def overflow_bound_eq) 
  next
    case 3
    with a round_pos_int [of "- n"] show ?thesis
      by (simp add: round64_def overflow_bound_eq)
  qed
qed

text \<open>
  For evaluation: a whole number of magnitude up to \<open>2^53\<close> is a binary64 number,
  so its rounding needs no search.
\<close>

lemma round64_code [code]:
  "round64 x =
     (case quotient_of x of
        (p, q) \<Rightarrow>
          if q = 1 \<and> \<bar>p\<bar> \<le> 9007199254740992 then Some x
          else (let y = (if x < 0 then - round_pos (- x) else round_pos x)
                in if \<bar>y\<bar> < overflow_bound then Some y else None))"
proof (cases "quotient_of x")
  case (Pair p q)
  show ?thesis
  proof (cases "q = 1 \<and> \<bar>p\<bar> \<le> 9007199254740992")
    case True
    with Pair have "x = of_int p" by (metis quotient_of_div div_by_1 of_int_1)
    with True round64_int [of p] Pair show ?thesis by simp
  next
    case False
    show ?thesis by (simp only: Pair prod.case if_not_P [OF False] round64_def)
  qed
qed

subsection \<open>The finite numbers\<close>

text \<open>
  A finite binary64 number is a rational that rounding leaves as it is. \<open>dbl\<close>
  rounds a rational to such a number (\<open>0\<close> on overflow; \<open>num\<close> below gives the
  infinities).
\<close>

typedef double = "{x :: rat. round64 x = Some x}"
  morphisms rat_of Abs_double
proof
  show "0 \<in> {x :: rat. round64 x = Some x}" by (simp add: round64_0)
qed

setup_lifting type_definition_double

instantiation double :: "{zero, equal, linorder}"
begin
lift_definition zero_double :: double is 0
  by (rule round64_0)
lift_definition less_eq_double :: "double \<Rightarrow> double \<Rightarrow> bool" is "(\<le>)" .
lift_definition less_double :: "double \<Rightarrow> double \<Rightarrow> bool" is "(<)" .
definition equal_double :: "double \<Rightarrow> double \<Rightarrow> bool" where
  "equal_double a b \<longleftrightarrow> rat_of a = rat_of b"
instance
  by standard (transfer; auto simp: equal_double_def rat_of_inject)+
end

lift_definition dbl :: "rat \<Rightarrow> double" is "\<lambda>x. case round64 x of Some y \<Rightarrow> y | None \<Rightarrow> 0"
  by (auto simp: round64_0 round64_idem split: option.splits)

section \<open>JavaScript values used by the component\<close>

text \<open>
  A JavaScript number: a finite binary64 number or one of the three special values.
  \<open>num\<close> is the number a numeric literal denotes, and the result of an exact
  computation: the nearest binary64 number, or an infinity on overflow.
\<close>

datatype jsnum = Fin double | PInf | NInf | NaN

definition num :: "rat \<Rightarrow> jsnum" where
  "num x = (case round64 x of Some y \<Rightarrow> Fin (dbl x) | None \<Rightarrow> if x < 0 then NInf else PInf)"

text \<open>The operator \<open>+\<close> on two numbers: the exact sum of two finite numbers, rounded.\<close>

fun js_add :: "jsnum \<Rightarrow> jsnum \<Rightarrow> jsnum" where
  "js_add (Fin a) (Fin b) = num (rat_of a + rat_of b)"
| "js_add (Fin a) PInf = PInf"
| "js_add (Fin a) NInf = NInf"
| "js_add PInf (Fin b) = PInf"
| "js_add PInf PInf = PInf"
| "js_add PInf NInf = NaN"
| "js_add NInf (Fin b) = NInf"
| "js_add NInf NInf = NInf"
| "js_add NInf PInf = NaN"
| "js_add NaN y = NaN"
| "js_add x NaN = NaN"

text \<open>The operator \<open><=\<close> on two numbers: every comparison with \<open>NaN\<close> is false.\<close>

fun js_le :: "jsnum \<Rightarrow> jsnum \<Rightarrow> bool" where
  "js_le (Fin a) (Fin b) = (a \<le> b)"
| "js_le (Fin a) PInf = True"
| "js_le (Fin a) NInf = False"
| "js_le PInf (Fin b) = False"
| "js_le PInf PInf = True"
| "js_le PInf NInf = False"
| "js_le NInf (Fin b) = True"
| "js_le NInf PInf = True"
| "js_le NInf NInf = True"
| "js_le NaN y = False"
| "js_le x NaN = False"

text \<open>Truthiness of a number: \<open>0\<close> and \<open>NaN\<close> are falsy.\<close>

fun truthy :: "jsnum \<Rightarrow> bool" where
  "truthy (Fin r) = (r \<noteq> 0)"
| "truthy PInf = True"
| "truthy NInf = True"
| "truthy NaN = False"

text \<open>
  The expression \<open>v || 0\<close> for a value \<open>v\<close> that is a number or \<open>undefined\<close>
  (\<open>None\<close>): a falsy \<open>v\<close> gives \<open>0\<close>.
\<close>

fun or_zero :: "jsnum option \<Rightarrow> jsnum" where
  "or_zero None = Fin 0"
| "or_zero (Some n) = (if truthy n then n else Fin 0)"

text \<open>
  Reading \<open>xs[i]\<close> from an array: \<open>undefined\<close> beyond the length. \<open>js_index\<close> is
  for an array without holes, \<open>arr_get\<close> for an array whose entries may themselves
  be holes (\<open>None\<close>).
\<close>

definition js_index :: "'a list \<Rightarrow> nat \<Rightarrow> 'a option" where
  "js_index xs i = (if i < length xs then Some (xs ! i) else None)"

definition arr_get :: "'a option list \<Rightarrow> nat \<Rightarrow> 'a option" where
  "arr_get xs i = (if i < length xs then xs ! i else None)"

section \<open>The fit loop\<close>

text \<open>
  The \<open>for\<close> loop of \<open>computeVisibleForCurrentWidth\<close> (lines 107 to 118), with its
  three variables \<open>i\<close>, \<open>sum\<close> (here \<open>rsum\<close>) and \<open>count\<close>; the result is the final \<open>count\<close>.
\<close>

function fit_loop :: "jsnum option list \<Rightarrow> jsnum \<Rightarrow> nat \<Rightarrow> jsnum \<Rightarrow> nat \<Rightarrow> nat" where
  "fit_loop ws containerWidth i rsum count =
     (if i < length ws then
        (let w = or_zero (arr_get ws i) in
         if js_le (js_add rsum w) containerWidth
         then fit_loop ws containerWidth (i + 1) (js_add rsum w) (count + 1)
         else count)
      else count)"
  by pat_completeness auto
termination
  by (relation "measure (\<lambda>(ws, cw, i, rsum, count). length ws - i)") auto

declare fit_loop.simps [simp del]

definition fit_count :: "jsnum option list \<Rightarrow> jsnum \<Rightarrow> nat" where
  "fit_count ws containerWidth = fit_loop ws containerWidth 0 (Fin 0) 0"

text \<open>
  The same scan over the entries that are still to be read; used to reason about
  the loop by induction on the array.
\<close>

fun greedy :: "jsnum option list \<Rightarrow> jsnum \<Rightarrow> jsnum \<Rightarrow> nat" where
  "greedy [] cw rsum = 0"
| "greedy (w # ws) cw rsum =
     (if js_le (js_add rsum (or_zero w)) cw
      then Suc (greedy ws cw (js_add rsum (or_zero w)))
      else 0)"



section \<open>The component and its host\<close>

text \<open>
  An \<open>HTMLElement\<close> as far as the component reads it: its \<open>clientWidth\<close> and the
  \<open>width\<close> of its \<open>getBoundingClientRect()\<close>.
\<close>

datatype element = Element (clientWidth: jsnum) (rect_width: jsnum)

text \<open>A \<open>Ref\<close> object made by \<open>createRef\<close>: its \<open>value\<close> is an element or \<open>undefined\<close>.\<close>

datatype ref = Ref (ref_value: "element option")

text \<open>What the resize observer observes: \<open>this.parentElement || this\<close>.\<close>

datatype target = ParentTarget | SelfTarget

text \<open>
  The suspended asynchronous calls. \<open>AwaitMeasure b\<close> is a call of
  \<open>measureAllItems\<close> waiting at \<open>await this.updateComplete\<close> (line 82); \<open>b\<close> says
  that \<open>firstUpdated\<close> made the call and waits for it at line 46.
  \<open>FirstUpdatedResume\<close> is \<open>firstUpdated\<close> about to continue after line 46.
\<close>

datatype task = AwaitMeasure bool | FirstUpdatedResume

text \<open>
  The state. First the fields the class declares, then what it inherits from
  \<open>LitElement\<close> and \<open>HTMLElement\<close> (\<open>changedItems\<close> says that the
  \<open>changedProperties\<close> of the next update has the key \<open>items\<close>), then the
  \<open>window\<close>: the pending timeouts (identifier and due time, in milliseconds), the
  next identifier \<open>setTimeout\<close> returns, and the clock, and last the suspended
  asynchronous calls of the component. An item is opaque (a type parameter), and
  \<open>items\<close> is an array without holes.
\<close>

record ('i, 'r) state =
  itemRefs :: "ref option list"
  resizeObserver :: "target option"
  resizeTimeout :: "nat option"
  measuredWidths :: "jsnum option list"
  measured :: bool
  visibleCount :: nat
  items :: "'i list"
  renderer :: "('i \<Rightarrow> nat \<Rightarrow> 'r) option"
  parentElement :: "element option"
  isConnected :: bool
  hasUpdated :: bool
  changedItems :: bool
  timers :: "(nat \<times> nat) list"
  nextTimer :: nat
  clock :: nat
  tasks :: "task list"

text \<open>
  A new instance (lines 8 to 39). The field initialiser of \<open>items\<close> goes through the
  property's setter, so the first update sees \<open>items\<close> among the changed properties.
  Timer identifiers are positive.
\<close>

definition init :: "('i, 'r) state" where
  "init = \<lparr> itemRefs = [], resizeObserver = None, resizeTimeout = None,
            measuredWidths = [], measured = False, visibleCount = 0,
            items = [], renderer = None,
            parentElement = None, isConnected = False, hasUpdated = False,
            changedItems = True,
            timers = [], nextTimer = 1, clock = 0, tasks = [] \<rparr>"

subsection \<open>\<open>computeVisibleForCurrentWidth\<close> (lines 105 to 123)\<close>

text \<open>Line 106: \<open>this.parentElement?.clientWidth || 0\<close>.\<close>

definition containerWidth :: "('i, 'r) state \<Rightarrow> jsnum" where
  "containerWidth s = or_zero (map_option clientWidth (parentElement s))"

definition computeVisibleForCurrentWidth :: "('i, 'r) state \<Rightarrow> ('i, 'r) state" where
  "computeVisibleForCurrentWidth s =
     (let count = fit_count (measuredWidths s) (containerWidth s)
      in if count \<noteq> visibleCount s then s\<lparr>visibleCount := count\<rparr> else s)"

text \<open>
  The same method under a stricter reading of JavaScript, in which reading an array
  beyond its length is an error (JavaScript itself gives \<open>undefined\<close>). It is used
  to state that the loop never does so. The property \<open>clientWidth\<close> is read
  through \<open>?.\<close>, which gives \<open>undefined\<close> for a \<open>null\<close> parent.
\<close>

datatype js_error = RangeError

definition checked_get :: "'a option list \<Rightarrow> nat \<Rightarrow> js_error + 'a option" where
  "checked_get xs i = (if i < length xs then Inr (xs ! i) else Inl RangeError)"

function fit_loop_checked ::
  "jsnum option list \<Rightarrow> jsnum \<Rightarrow> nat \<Rightarrow> jsnum \<Rightarrow> nat \<Rightarrow> js_error + nat" where
  "fit_loop_checked ws cw i rsum count =
     (if i < length ws then
        (case checked_get ws i of
           Inl e \<Rightarrow> Inl e
         | Inr v \<Rightarrow>
            (let w = or_zero v in
             if js_le (js_add rsum w) cw
             then fit_loop_checked ws cw (i + 1) (js_add rsum w) (count + 1)
             else Inr count))
      else Inr count)"
  by pat_completeness auto
termination
  by (relation "measure (\<lambda>(ws, cw, i, rsum, count). length ws - i)") auto

declare fit_loop_checked.simps [simp del]

definition computeVisible_checked :: "('i, 'r) state \<Rightarrow> js_error + ('i, 'r) state" where
  "computeVisible_checked s =
     (let cw =
            or_zero (case parentElement s of None \<Rightarrow> None | Some p \<Rightarrow> Some (clientWidth p))
      in case fit_loop_checked (measuredWidths s) cw 0 (Fin 0) 0 of
           Inl e \<Rightarrow> Inl e
         | Inr count \<Rightarrow>
             Inr (if count \<noteq> visibleCount s then s\<lparr>visibleCount := count\<rparr> else s))"

subsection \<open>Measurement (lines 74 to 94)\<close>

text \<open>The assignment \<open>xs[i] = v\<close>: beyond the length it leaves holes before \<open>i\<close>.\<close>

definition js_store :: "'a option list \<Rightarrow> nat \<Rightarrow> 'a \<Rightarrow> 'a option list" where
  "js_store xs i v =
     (if i < length xs then xs[i := Some v]
      else xs @ replicate (i - length xs) None @ [Some v])"

text \<open>
  \<open>ensureRefs\<close>: for every index of \<open>items\<close>, in order, a missing entry of
  \<open>itemRefs\<close> gets a new \<open>Ref\<close> (whose value is \<open>undefined\<close>).
\<close>

definition ensure_ref :: "nat \<Rightarrow> ref option list \<Rightarrow> ref option list" where
  "ensure_ref i refs =
     (case arr_get refs i of Some r \<Rightarrow> refs | None \<Rightarrow> js_store refs i (Ref None))"

definition ensureRefs :: "('i, 'r) state \<Rightarrow> ('i, 'r) state" where
  "ensureRefs s = s\<lparr>itemRefs := fold ensure_ref [0..<length (items s)] (itemRefs s)\<rparr>"

text \<open>
  Lines 86 and 87: \<open>el = this.itemRefs[i]?.value\<close> and the width recorded for it.
\<close>

definition item_element :: "ref option list \<Rightarrow> nat \<Rightarrow> element option" where
  "item_element refs i = (case arr_get refs i of None \<Rightarrow> None | Some r \<Rightarrow> ref_value r)"

definition item_width :: "ref option list \<Rightarrow> nat \<Rightarrow> jsnum" where
  "item_width refs i = (case item_element refs i of Some el \<Rightarrow> rect_width el | None \<Rightarrow> Fin 0)"

text \<open>Lines 84 to 88: the array \<open>widths\<close> after the \<open>forEach\<close>.\<close>

definition measure_widths :: "('i, 'r) state \<Rightarrow> jsnum option list" where
  "measure_widths s =
     fold (\<lambda>i widths. js_store widths i (item_width (itemRefs s) i))
       [0..<length (items s)] []"

text \<open>\<open>measureAllItems\<close> from line 84 on, that is after its \<open>await\<close>.\<close>

definition measureAllItems_resume :: "('i, 'r) state \<Rightarrow> ('i, 'r) state" where
  "measureAllItems_resume s =
     computeVisibleForCurrentWidth (s\<lparr>measuredWidths := measure_widths s, measured := True\<rparr>)"

subsection \<open>\<open>render\<close> (lines 125 to 152)\<close>

text \<open>
  The four templates \<open>render\<close> returns. A span of the hidden container carries the
  \<open>Ref\<close> given to the \<open>ref\<close> directive (\<open>None\<close> when \<open>itemRefs\<close> has none at
  that index) and what the renderer returned.
\<close>

datatype 'r view =
    NoRenderer
  | HiddenMeasure "(ref option \<times> 'r) list"
  | Nothing
  | VisibleItems "'r list"

text \<open>\<open>xs.map((item, index) => f(item, index))\<close>.\<close>

definition map_index :: "('a \<Rightarrow> nat \<Rightarrow> 'b) \<Rightarrow> 'a list \<Rightarrow> 'b list" where
  "map_index f xs = map (\<lambda>(index, item). f item index) (enumerate 0 xs)"

definition render :: "('i, 'r) state \<Rightarrow> 'r view" where
  "render s =
     (case renderer s of
        None \<Rightarrow> NoRenderer
      | Some r \<Rightarrow>
          if \<not> measured s then
            HiddenMeasure
              (map_index (\<lambda>item index. (arr_get (itemRefs s) index, r item index)) (items s))
          else if visibleCount s = 0 then Nothing
          else VisibleItems (map_index r (take (visibleCount s) (items s))))"

subsection \<open>Timers and the resize observer (lines 63 to 72 and 96 to 103)\<close>

definition clearTimeout :: "nat \<Rightarrow> ('i, 'r) state \<Rightarrow> ('i, 'r) state" where
  "clearTimeout h s = s\<lparr>timers := filter (\<lambda>(k, due). k \<noteq> h) (timers s)\<rparr>"

text \<open>
  \<open>if (this.resizeTimeout) clearTimeout(this.resizeTimeout)\<close>, as both
  \<open>onContainerResize\<close> and \<open>disconnectedCallback\<close> have it: the identifier
  \<open>0\<close> is falsy.
\<close>

definition clear_resizeTimeout :: "('i, 'r) state \<Rightarrow> ('i, 'r) state" where
  "clear_resizeTimeout s =
     (case resizeTimeout s of
        None \<Rightarrow> s
      | Some h \<Rightarrow> if h \<noteq> 0 then clearTimeout h s else s)"

text \<open>The callback of the timeout (lines 100 and 101).\<close>

definition timeout_callback :: "('i, 'r) state \<Rightarrow> ('i, 'r) state" where
  "timeout_callback s = (computeVisibleForCurrentWidth s)\<lparr>resizeTimeout := None\<rparr>"

text \<open>
  \<open>onContainerResize\<close>: \<open>window.setTimeout\<close> enters the callback with the delay of
  50 milliseconds and returns its identifier.
\<close>

definition onContainerResize :: "('i, 'r) state \<Rightarrow> ('i, 'r) state" where
  "onContainerResize s =
     (let s1 = clear_resizeTimeout s;
          h = nextTimer s1
      in s1\<lparr>timers := timers s1 @ [(h, clock s1 + 50)],
             nextTimer := h + 1,
             resizeTimeout := Some h\<rparr>)"

definition disconnectedCallback :: "('i, 'r) state \<Rightarrow> ('i, 'r) state" where
  "disconnectedCallback s =
     clear_resizeTimeout
       (if resizeObserver s \<noteq> None then s\<lparr>resizeObserver := None\<rparr> else s)"

text \<open>
  Time passes: the timeouts due by the new time run, in the order in which they
  were entered (which is the order of their due times, every delay being the same).
\<close>

definition due_timers :: "nat \<Rightarrow> ('i, 'r) state \<Rightarrow> (nat \<times> nat) list" where
  "due_timers d s = filter (\<lambda>(h, due). due \<le> clock s + d) (timers s)"

definition run_timer :: "nat \<times> nat \<Rightarrow> ('i, 'r) state \<Rightarrow> ('i, 'r) state" where
  "run_timer t s = timeout_callback (clearTimeout (fst t) s)"

definition advance :: "nat \<Rightarrow> ('i, 'r) state \<Rightarrow> ('i, 'r) state" where
  "advance d s = fold run_timer (due_timers d s) (s\<lparr>clock := clock s + d\<rparr>)"

subsection \<open>The life cycle (lines 41 to 61)\<close>

text \<open>
  \<open>firstUpdated\<close> up to its \<open>await\<close>: the call of \<open>measureAllItems\<close> is suspended at
  once. \<open>updated\<close> when \<open>items\<close> changed: the call of \<open>measureAllItems\<close> is made
  after \<open>updateComplete\<close> and is suspended there.
\<close>

definition firstUpdated_begin :: "('i, 'r) state \<Rightarrow> ('i, 'r) state" where
  "firstUpdated_begin s = (let s1 = ensureRefs s in s1\<lparr>tasks := tasks s1 @ [AwaitMeasure True]\<rparr>)"

definition updated :: "bool \<Rightarrow> ('i, 'r) state \<Rightarrow> ('i, 'r) state" where
  "updated has_items s =
     (if has_items then
        (let s1 = ensureRefs (s\<lparr>measured := False\<rparr>)
         in s1\<lparr>tasks := tasks s1 @ [AwaitMeasure False]\<rparr>)
      else s)"

text \<open>
  One update of the element: it renders (which changes no field), calls
  \<open>firstUpdated\<close> the first time, then \<open>updated\<close> with the changed properties.
\<close>

definition update :: "('i, 'r) state \<Rightarrow> ('i, 'r) state" where
  "update s =
     (let s1 = (if \<not> hasUpdated s then firstUpdated_begin (s\<lparr>hasUpdated := True\<rparr>) else s);
          s2 = updated (changedItems s) s1
      in s2\<lparr>changedItems := False\<rparr>)"

text \<open>A suspended call continues.\<close>

fun resume :: "task \<Rightarrow> ('i, 'r) state \<Rightarrow> ('i, 'r) state" where
  "resume (AwaitMeasure from_first) s =
     (let s1 = measureAllItems_resume s
      in if from_first then s1\<lparr>tasks := tasks s1 @ [FirstUpdatedResume]\<rparr> else s1)"
| "resume FirstUpdatedResume s =
     (if resizeObserver s = None
      then s\<lparr>resizeObserver :=
               Some (if parentElement s \<noteq> None then ParentTarget else SelfTarget)\<rparr>
      else s)"

text \<open>
  What can happen to an instance. The caller sets \<open>items\<close> or \<open>renderer\<close>; the
  document connects the element (under a parent or none), changes its parent or the
  parent's width, and disconnects it; the rendering library writes the value of a
  \<open>Ref\<close> and performs an update (the first one needs the element connected); a
  suspended call continues; the resize observer, while there is one, notifies;
  time passes. The order of updates and continuing calls is left open: every order
  the scheduler of the host can choose is a sequence of these events.
\<close>

datatype ('i, 'r) event =
    SetItems "'i list"
  | SetRenderer "('i \<Rightarrow> nat \<Rightarrow> 'r) option"
  | Connect "element option"
  | SetParent "element option"
  | BindRef nat "element option"
  | Update
  | Resume nat
  | Resize
  | Advance nat
  | Disconnect

fun step :: "('i, 'r) event \<Rightarrow> ('i, 'r) state \<Rightarrow> ('i, 'r) state option" where
  "step (SetItems xs) s = Some (s\<lparr>items := xs, changedItems := True\<rparr>)"
| "step (SetRenderer r) s = Some (s\<lparr>renderer := r\<rparr>)"
| "step (Connect p) s =
     (if isConnected s then None else Some (s\<lparr>isConnected := True, parentElement := p\<rparr>))"
| "step (SetParent p) s = Some (s\<lparr>parentElement := p\<rparr>)"
| "step (BindRef i v) s =
     (case arr_get (itemRefs s) i of
        None \<Rightarrow> None
      | Some r \<Rightarrow> Some (s\<lparr>itemRefs := (itemRefs s)[i := Some (Ref v)]\<rparr>))"
| "step Update s = (if hasUpdated s \<or> isConnected s then Some (update s) else None)"
| "step (Resume k) s =
     (case js_index (tasks s) k of
        None \<Rightarrow> None
      | Some t \<Rightarrow> Some (resume t (s\<lparr>tasks := take k (tasks s) @ drop (Suc k) (tasks s)\<rparr>)))"
| "step Resize s = (if resizeObserver s \<noteq> None then Some (onContainerResize s) else None)"
| "step (Advance d) s = Some (advance d s)"
| "step Disconnect s =
     (if isConnected s then Some (disconnectedCallback (s\<lparr>isConnected := False\<rparr>)) else None)"

fun run :: "('i, 'r) event list \<Rightarrow> ('i, 'r) state \<Rightarrow> ('i, 'r) state option" where
  "run [] s = Some s"
| "run (e # es) s = (case step e s of None \<Rightarrow> None | Some s' \<Rightarrow> run es s')"

text \<open>The number of timeout callbacks that run in the course of a sequence of events.\<close>

fun fired :: "('i, 'r) event \<Rightarrow> ('i, 'r) state \<Rightarrow> nat" where
  "fired (Advance d) s = length (due_timers d s)"
| "fired e s = 0"

fun fires :: "('i, 'r) event list \<Rightarrow> ('i, 'r) state \<Rightarrow> nat" where
  "fires [] s = 0"
| "fires (e # es) s = (case step e s of None \<Rightarrow> 0 | Some s' \<Rightarrow> fired e s + fires es s')"

text \<open>The number of resize observers created in the course of a sequence of events.\<close>

fun creations :: "('i, 'r) event list \<Rightarrow> ('i, 'r) state \<Rightarrow> nat" where
  "creations [] s = 0"
| "creations (e # es) s =
     (case step e s of
        None \<Rightarrow> 0
      | Some s' \<Rightarrow>
          (if resizeObserver s = None \<and> resizeObserver s' \<noteq> None then 1 else 0)
            + creations es s')"

text \<open>
  A burst of resize notifications: each comes some milliseconds after the one before
  and finds the container as given.
\<close>

definition burst_events :: "(nat \<times> element option) list \<Rightarrow> ('i, 'r) event list" where
  "burst_events b = concat (map (\<lambda>(d, p). [Advance d, SetParent p, Resize]) b)"

section \<open>Invariants and example runs\<close>

text \<open>
  Two events are the continuations of the component's own asynchronous work: an
  update of the element and a suspended call that continues.
\<close>

fun is_async :: "('i, 'r) event \<Rightarrow> bool" where
  "is_async Update = True"
| "is_async (Resume k) = True"
| "is_async e = False"

text \<open>
  The measured widths are in step with the count: \<open>visibleCount\<close> never exceeds their
  number, and they are as many as the items whenever \<open>measured\<close> holds and no
  replacement of \<open>items\<close> waits for its update.
\<close>

definition widths_inv :: "('i, 'r) state \<Rightarrow> bool" where
  "widths_inv s \<longleftrightarrow>
     visibleCount s \<le> length (measuredWidths s)
     \<and> (measured s \<and> \<not> changedItems s \<longrightarrow> length (measuredWidths s) = length (items s))"

text \<open>
  Every pending timeout is the one \<open>resizeTimeout\<close> names, and no identifier is
  \<open>0\<close>.
\<close>

definition timers_inv :: "('i, 'r) state \<Rightarrow> bool" where
  "timers_inv s \<longleftrightarrow>
     nextTimer s \<noteq> 0
     \<and> (\<forall>t\<in>set (timers s). resizeTimeout s = Some (fst t) \<and> fst t \<noteq> 0)"

text \<open>No resize observer and no pending timeout.\<close>

definition quiet :: "('i, 'r) state \<Rightarrow> bool" where
  "quiet s \<longleftrightarrow> resizeObserver s = None \<and> timers s = []"

text \<open>
  The suspended calls that lead to the creation of the resize observer, and how many
  creations are still possible: one until the first update, then one for each such
  call.
\<close>

fun is_first :: "task \<Rightarrow> bool" where
  "is_first (AwaitMeasure from_first) = from_first"
| "is_first FirstUpdatedResume = True"

definition pending_first :: "('i, 'r) state \<Rightarrow> nat" where
  "pending_first s = (if hasUpdated s then 0 else 1) + length (filter is_first (tasks s))"

definition first_inv :: "('i, 'r) state \<Rightarrow> bool" where
  "first_inv s \<longleftrightarrow> pending_first s \<le> 1 \<and> (resizeObserver s \<noteq> None \<longrightarrow> pending_first s = 0)"

text \<open>A state in which no resize observer will ever exist again.\<close>

definition dead :: "('i, 'r) state \<Rightarrow> bool" where
  "dead s \<longleftrightarrow> pending_first s = 0 \<and> resizeObserver s = None \<and> timers s = []"

text \<open>Whether a step created the resize observer.\<close>

definition created :: "('i, 'r) state \<Rightarrow> ('i, 'r) state \<Rightarrow> nat" where
  "created s s' = (if resizeObserver s = None \<and> resizeObserver s' \<noteq> None then 1 else 0)"

text \<open>
  Example runs. \<open>first_load\<close>: two items are set, the element is connected under
  a parent of width 100, updated, and its three suspended calls continue.
  \<open>replace_trace\<close>: an element loads empty, then gets two items, which are
  rendered in the hidden container (widths 30 and 40), measured and shown.
\<close>

definition first_load :: "(nat, nat) event list" where
  "first_load = [SetItems [7, 8], Connect (Some (Element (num 100) (Fin 0))), Update,
                 Resume 0, Resume 0, Resume 0]"

definition resized_load :: "(nat, nat) event list" where
  "resized_load = first_load @ [Resize]"

definition replace_trace :: "(nat, nat) event list" where
  "replace_trace =
     [Connect (Some (Element (num 100) (Fin 0))), Update, Resume 0, Resume 0, Resume 0,
      SetItems [7, 8], Update, Update,
      BindRef 0 (Some (Element (Fin 0) (num 30))), BindRef 1 (Some (Element (Fin 0) (num 40))),
      Resume 0, Update, BindRef 0 None, BindRef 1 None]"

definition teardown_trace :: "(nat, nat) event list" where
  "teardown_trace = [Advance 100, SetParent (Some (Element (num 10) (Fin 0))), SetItems [1]]"

definition reattach_trace :: "(nat, nat) event list" where
  "reattach_trace = [Connect (Some (Element (num 100) (Fin 0))), SetItems [1], Update, Resume 0]"

definition resize_burst :: "(nat \<times> element option) list" where
  "resize_burst = [(5, Some (Element (num 200) (Fin 0))), (10, Some (Element (num 150) (Fin 0))),
                   (20, Some (Element (num 120) (Fin 0)))]"

definition fitted_state :: "(nat, nat) state" where
  "fitted_state = init\<lparr>measuredWidths := [Some (num 50), Some (num 30), Some (num 50)],
                       measured := True, resizeObserver := Some ParentTarget\<rparr>"

section \<open>Properties of the fit loop\<close>

lemma fit_loop_greedy:
  "fit_loop ws cw i rsum count = count + greedy (drop i ws) cw rsum"
proof (induction ws cw i rsum count rule: fit_loop.induct)
  case (1 ws cw i rsum count)
  show ?case
  proof (cases "i < length ws")
    case False
    then show ?thesis by (simp add: fit_loop.simps [of ws cw i])
  next
    case True
    then have d: "drop i ws = ws ! i # drop (Suc i) ws"
      by (simp add: Cons_nth_drop_Suc)
    show ?thesis
    proof (cases "js_le (js_add rsum (or_zero (arr_get ws i))) cw")
      case le: True
      with True 1 [OF True refl le] show ?thesis
        by (simp add: fit_loop.simps [of ws cw i] d arr_get_def)
    next
      case nle: False
      with True show ?thesis
        by (simp add: fit_loop.simps [of ws cw i] d arr_get_def)
    qed
  qed
qed

lemma fit_count_greedy: "fit_count ws cw = greedy ws cw (Fin 0)"
  by (simp add: fit_count_def fit_loop_greedy)


lemma greedy_le_length: "greedy ws cw a \<le> length ws"
  by (induction ws arbitrary: a) auto

lemma js_le_trans: "js_le x W1 \<Longrightarrow> js_le W1 W2 \<Longrightarrow> js_le x W2"
  by (cases x; cases W1; cases W2) auto


lemma num_rat_of: "num (rat_of d) = Fin d"
proof -
  have r: "round64 (rat_of d) = Some (rat_of d)" using rat_of [of d] by simp
  then have "rat_of (dbl (rat_of d)) = rat_of d" by (simp add: dbl.rep_eq)
  then have "dbl (rat_of d) = d" by (simp only: rat_of_inject)
  with r show ?thesis by (simp add: num_def)
qed

lemma js_add_zero_left: "js_add (Fin 0) x = x"
  by (cases x) (simp_all add: zero_double.rep_eq num_rat_of)










lemma visibleCount_compute:
  "visibleCount (computeVisibleForCurrentWidth s) = fit_count (measuredWidths s) (containerWidth s)"
  by (simp add: computeVisibleForCurrentWidth_def Let_def)



text \<open>
  Rounding also decides between ordinary widths. The binary64 numbers nearest to
  \<open>0.1\<close> and \<open>0.9\<close> sum exactly to a little more than \<open>1\<close>, and the program's
  sum of them is \<open>1\<close>: in a container of width \<open>1\<close> both items are admitted.
\<close>

lemma round64_tenth: "round64 (1 / 10) = Some (3602879701896397 / 36028797018963968)"
  by code_simp

lemma round64_nine_tenths: "round64 (9 / 10) = Some (8106479329266893 / 9007199254740992)"
  by code_simp

lemma round64_tenth_sum:
  "round64 (3602879701896397 / 36028797018963968 + 8106479329266893 / 9007199254740992) = Some 1"
  by code_simp

lemma rounding_example:
  "fit_count [Some (num (1 / 10)), Some (num (9 / 10))] (num 1) = 2
   \<and> 1 < rat_of (dbl (1 / 10)) + rat_of (dbl (9 / 10))"
proof -
  have one: "round64 1 = Some 1" using round64_int [of 1] by simp
  have a: "rat_of (dbl (1 / 10)) = 3602879701896397 / 36028797018963968"
    by (simp add: dbl.rep_eq round64_tenth)
  have b: "rat_of (dbl (9 / 10)) = 8106479329266893 / 9007199254740992"
    by (simp add: dbl.rep_eq round64_nine_tenths)
  have c: "rat_of (dbl 1) = 1" by (simp add: dbl.rep_eq one)
  have s: "js_add (Fin (dbl (1 / 10))) (Fin (dbl (9 / 10))) = Fin (dbl 1)"
  proof -
    have "rat_of (dbl (3602879701896397 / 36028797018963968
                       + 8106479329266893 / 9007199254740992)) = rat_of (dbl 1)"
      by (simp only: dbl.rep_eq round64_tenth_sum one option.case)
    then have "dbl (3602879701896397 / 36028797018963968
                 + 8106479329266893 / 9007199254740992) = dbl 1"
      by (simp only: rat_of_inject)
    then show ?thesis
      by (simp only: js_add.simps a b num_def round64_tenth_sum option.case)
  qed
  have n: "num (1 / 10) = Fin (dbl (1 / 10))" "num (9 / 10) = Fin (dbl (9 / 10))"
    "num 1 = Fin (dbl 1)"
    by (simp_all add: num_def round64_tenth round64_nine_tenths one)
  have nz: "dbl (1 / 10) \<noteq> 0" "dbl (9 / 10) \<noteq> 0"
    using a b by (auto simp: zero_double.rep_eq dest: arg_cong [where f = rat_of])
  have le: "dbl (1 / 10) \<le> dbl 1" "dbl 1 \<le> dbl 1"
    by (simp_all add: less_eq_double.rep_eq a c)
  have "fit_count [Some (num (1 / 10)), Some (num (9 / 10))] (num 1) = 2"
    by (simp add: fit_count_greedy n nz le js_add_zero_left s del: js_add.simps)
  moreover have "1 < rat_of (dbl (1 / 10)) + rat_of (dbl (9 / 10))"
    by (simp add: a b)
  ultimately show ?thesis by simp
qed

lemma greedy_mono: "js_le W1 W2 \<Longrightarrow> greedy ws W1 a \<le> greedy ws W2 a"
  by (induction ws arbitrary: a) (auto dest: js_le_trans)

text \<open>
  Claim C7. For the same measured widths, a container that is at least as wide never
  gets a smaller \<open>visibleCount\<close>: with container widths \<open>W1 \<le> W2\<close> the count
  computed for \<open>W1\<close> is at most the count computed for \<open>W2\<close>. (The proof does not
  need the widths to be non-negative.)
\<close>

theorem visibleCount_mono:
  assumes "measuredWidths s1 = measuredWidths s2"
    and "containerWidth s1 = Fin W1" and "containerWidth s2 = Fin W2" and "W1 \<le> W2"
  shows "visibleCount (computeVisibleForCurrentWidth s1)
           \<le> visibleCount (computeVisibleForCurrentWidth s2)"
  using assms by (simp add: visibleCount_compute fit_count_greedy greedy_mono)

theorem visibleCount_mono_witness:
  "visibleCount (computeVisibleForCurrentWidth
       ((init :: (nat, nat) state)
          \<lparr>measuredWidths := [Some (num 50), Some (num 30), Some (num 40)],
           parentElement := Some (Element (num 60) (Fin 0))\<rparr>))
   \<le> visibleCount (computeVisibleForCurrentWidth
       ((init :: (nat, nat) state)
          \<lparr>measuredWidths := [Some (num 50), Some (num 30), Some (num 40)],
           parentElement := Some (Element (num 90) (Fin 0))\<rparr>))
   \<and> visibleCount (computeVisibleForCurrentWidth
       ((init :: (nat, nat) state)
          \<lparr>measuredWidths := [Some (num 50), Some (num 30), Some (num 40)],
           parentElement := Some (Element (num 60) (Fin 0))\<rparr>)) = 1"
proof -
  let ?s1 = "(init :: (nat, nat) state)
          \<lparr>measuredWidths := [Some (num 50), Some (num 30), Some (num 40)],
           parentElement := Some (Element (num 60) (Fin 0))\<rparr>"
  let ?s2 = "(init :: (nat, nat) state)
          \<lparr>measuredWidths := [Some (num 50), Some (num 30), Some (num 40)],
           parentElement := Some (Element (num 90) (Fin 0))\<rparr>"
  have a: "measuredWidths ?s1 = measuredWidths ?s2" by simp
  have b: "containerWidth ?s1 = Fin (dbl 60)" by code_simp
  have c: "containerWidth ?s2 = Fin (dbl 90)" by code_simp
  have d: "dbl 60 \<le> dbl 90" by code_simp
  have e: "visibleCount (computeVisibleForCurrentWidth ?s1) = 1" by code_simp
  from visibleCount_mono [OF a b c d] e show ?thesis by simp
qed

section \<open>The edge cases of the fit\<close>

lemma greedy_zero:
  "\<forall>w\<in>set ws. js_le (Fin 0) (or_zero w) \<Longrightarrow>
   greedy ws (Fin 0) (Fin 0) = length (takeWhile (\<lambda>w. or_zero w = Fin 0) ws)"
proof (induction ws)
  case Nil
  then show ?case by simp
next
  case (Cons w ws)
  then have nn: "js_le (Fin 0) (or_zero w)" by simp
  show ?case
  proof (cases "or_zero w = Fin 0")
    case True
    with Cons show ?thesis by (simp add: js_add_zero_left del: or_zero.simps js_add.simps)
  next
    case False
    with nn have "\<not> js_le (js_add (Fin 0) (or_zero w)) (Fin 0)"
      by (cases "or_zero w") (auto simp: js_add_zero_left simp del: js_add.simps)
    with False show ?thesis by (simp del: or_zero.simps js_add.simps)
  qed
qed

text \<open>
  Claim C2, as the code has it. With no measured widths \<open>visibleCount\<close> becomes
  \<open>0\<close>. With a container width of \<open>0\<close> (which is also what a missing parent gives)
  and no negative width, \<open>visibleCount\<close> becomes the number of leading entries
  whose width is \<open>0\<close> (a missing or falsy entry counts as \<open>0\<close>): those fit, since
  equality fits. So it is \<open>0\<close> when the first width is positive.
\<close>

theorem visibleCount_zero_width:
  "(measuredWidths s = [] \<longrightarrow> visibleCount (computeVisibleForCurrentWidth s) = 0)
   \<and> (parentElement s = None \<longrightarrow> containerWidth s = Fin 0)
   \<and> (containerWidth s = Fin 0 \<and> (\<forall>w\<in>set (measuredWidths s). js_le (Fin 0) (or_zero w)) \<longrightarrow>
        visibleCount (computeVisibleForCurrentWidth s)
          = length (takeWhile (\<lambda>w. or_zero w = Fin 0) (measuredWidths s)))"
proof -
  have "parentElement s = None \<longrightarrow> containerWidth s = Fin 0"
    by (simp add: containerWidth_def)
  then show ?thesis
    by (simp add: visibleCount_compute fit_count_greedy greedy_zero del: or_zero.simps)
qed

theorem visibleCount_zero_width_witness:
  "visibleCount (computeVisibleForCurrentWidth
       ((init :: (nat, nat) state)
          \<lparr>measuredWidths := [Some (Fin 0), None, Some (num 5), Some (Fin 0)]\<rparr>))
     = length (takeWhile (\<lambda>w. or_zero w = Fin 0) [Some (Fin 0), None, Some (num 5), Some (Fin 0)])
   \<and> visibleCount (computeVisibleForCurrentWidth
       ((init :: (nat, nat) state)\<lparr>measuredWidths := [Some (num 5), Some (Fin 0)]\<rparr>)) = 0
   \<and> visibleCount (computeVisibleForCurrentWidth
       ((init :: (nat, nat) state)\<lparr>measuredWidths := []\<rparr>)) = 0"
proof -
  let ?s = "(init :: (nat, nat) state)
          \<lparr>measuredWidths := [Some (Fin 0), None, Some (num 5), Some (Fin 0)]\<rparr>"
  let ?t = "(init :: (nat, nat) state)\<lparr>measuredWidths := [Some (num 5), Some (Fin 0)]\<rparr>"
  let ?u = "(init :: (nat, nat) state)\<lparr>measuredWidths := []\<rparr>"
  have cs: "containerWidth ?s = Fin 0" and ct: "containerWidth ?t = Fin 0"
    by (simp_all add: containerWidth_def init_def)
  have ns: "\<forall>w\<in>set (measuredWidths ?s). js_le (Fin 0) (or_zero w)" by code_simp
  have nt: "\<forall>w\<in>set (measuredWidths ?t). js_le (Fin 0) (or_zero w)" by code_simp
  have zt: "length (takeWhile (\<lambda>w. or_zero w = Fin 0) (measuredWidths ?t)) = 0" by code_simp
  from visibleCount_zero_width [of ?s] cs ns
  have "visibleCount (computeVisibleForCurrentWidth ?s)
          = length (takeWhile (\<lambda>w. or_zero w = Fin 0) (measuredWidths ?s))"
    by blast
  moreover from visibleCount_zero_width [of ?t] ct nt
  have "visibleCount (computeVisibleForCurrentWidth ?t)
          = length (takeWhile (\<lambda>w. or_zero w = Fin 0) (measuredWidths ?t))"
    by blast
  then have "visibleCount (computeVisibleForCurrentWidth ?t) = 0" by (simp only: zt)
  moreover from visibleCount_zero_width [of ?u]
  have "visibleCount (computeVisibleForCurrentWidth ?u) = 0" by simp
  ultimately show ?thesis by simp
qed

text \<open>
  The claim C2 as the specification states it fails: an element with one item,
  connected without a parent and measured before its item has an element, has the
  container width \<open>0\<close> and one width \<open>0\<close>, and the item is admitted.
\<close>

theorem zero_width_counterexample:
  "map_option (\<lambda>s. (containerWidth s, measuredWidths s, visibleCount s))
      (run [SetItems [7], Connect None, Update, Resume 0] (init :: (nat, nat) state))
     = Some (Fin 0, [Some (Fin 0)], 1)"
  by code_simp

lemma or_zero_idem: "or_zero (Some (or_zero w)) = or_zero w"
  by (cases w) auto

lemma greedy_coerced: "greedy (map (\<lambda>w. Some (or_zero w)) ws) cw a = greedy ws cw a"
  by (induction ws arbitrary: a) (simp_all add: or_zero_idem del: or_zero.simps)

lemma fit_loop_checked_eq:
  "fit_loop_checked ws cw i rsum count = Inr (fit_loop ws cw i rsum count)"
proof (induction ws cw i rsum count rule: fit_loop.induct)
  case (1 ws cw i rsum count)
  show ?case
  proof (cases "i < length ws")
    case False
    then show ?thesis
      by (simp add: fit_loop.simps [of ws cw i] fit_loop_checked.simps [of ws cw i])
  next
    case True
    show ?thesis
    proof (cases "js_le (js_add rsum (or_zero (arr_get ws i))) cw")
      case le: True
      with True 1 [OF True refl le] show ?thesis
        by (simp add: fit_loop.simps [of ws cw i] fit_loop_checked.simps [of ws cw i]
            arr_get_def checked_get_def)
    next
      case nle: False
      with True show ?thesis
        by (simp add: fit_loop.simps [of ws cw i] fit_loop_checked.simps [of ws cw i]
            arr_get_def checked_get_def)
    qed
  qed
qed

text \<open>
  Claim C9. \<open>computeVisibleForCurrentWidth\<close> is total on every array of measured
  widths and every container width: read strictly (a read beyond the length of the
  array being an error) it returns without an error and with the same result, so
  the scan reads no index beyond the array; an entry that is missing, \<open>NaN\<close> or
  \<open>0\<close> counts as \<open>0\<close>, so that replacing every entry by its coerced value changes
  nothing; and the count never exceeds the length of the array.
\<close>

theorem computeVisible_total:
  "computeVisible_checked s = Inr (computeVisibleForCurrentWidth s)
   \<and> visibleCount (computeVisibleForCurrentWidth s)
       = visibleCount (computeVisibleForCurrentWidth
           (s\<lparr>measuredWidths := map (\<lambda>w. Some (or_zero w)) (measuredWidths s)\<rparr>))
   \<and> or_zero None = Fin 0 \<and> or_zero (Some NaN) = Fin 0 \<and> or_zero (Some (Fin 0)) = Fin 0
   \<and> visibleCount (computeVisibleForCurrentWidth s) \<le> length (measuredWidths s)"
proof -
  have "computeVisible_checked s = Inr (computeVisibleForCurrentWidth s)"
    by (simp add: computeVisible_checked_def computeVisibleForCurrentWidth_def
        fit_loop_checked_eq fit_count_def containerWidth_def Let_def map_option_case)
  moreover have "visibleCount (computeVisibleForCurrentWidth s)
       = visibleCount (computeVisibleForCurrentWidth
           (s\<lparr>measuredWidths := map (\<lambda>w. Some (or_zero w)) (measuredWidths s)\<rparr>))"
    by (simp add: visibleCount_compute fit_count_greedy greedy_coerced containerWidth_def
        del: or_zero.simps)
  moreover have "visibleCount (computeVisibleForCurrentWidth s) \<le> length (measuredWidths s)"
    by (simp add: visibleCount_compute fit_count_greedy greedy_le_length)
  ultimately show ?thesis by simp
qed

theorem computeVisible_total_witness:
  "computeVisible_checked
       ((init :: (nat, nat) state)
          \<lparr>measuredWidths := [None, Some NaN, Some (Fin 0), Some NInf, Some PInf, Some (num 1)],
           visibleCount := 7\<rparr>)
     = Inr (computeVisibleForCurrentWidth
       ((init :: (nat, nat) state)
          \<lparr>measuredWidths := [None, Some NaN, Some (Fin 0), Some NInf, Some PInf, Some (num 1)],
           visibleCount := 7\<rparr>))
   \<and> visibleCount (computeVisibleForCurrentWidth
       ((init :: (nat, nat) state)
          \<lparr>measuredWidths := [None, Some NaN, Some (Fin 0), Some NInf, Some PInf, Some (num 1)],
           visibleCount := 7\<rparr>)) = 4"
proof -
  let ?s = "(init :: (nat, nat) state)
          \<lparr>measuredWidths := [None, Some NaN, Some (Fin 0), Some NInf, Some PInf, Some (num 1)],
           visibleCount := 7\<rparr>"
  have "visibleCount (computeVisibleForCurrentWidth ?s) = 4" by code_simp
  with computeVisible_total [of ?s] show ?thesis by simp
qed

section \<open>Measurement\<close>

lemma fold_js_store:
  "fold (\<lambda>i ws. js_store ws i (f i)) [0..<n] [] = map (\<lambda>i. Some (f i)) [0..<n]"
  by (induction n) (simp_all add: js_store_def)

lemma measure_widths_map:
  "measure_widths s = map (\<lambda>i. Some (item_width (itemRefs s) i)) [0..<length (items s)]"
  by (simp add: measure_widths_def fold_js_store)

text \<open>
  Claim C8. The measurement has no failing case: an item whose \<open>Ref\<close> is missing
  from \<open>itemRefs\<close> or holds no element is measured as \<open>0\<close>. The array it stores
  in \<open>measuredWidths\<close> has one entry for each item, at the item's index, and
  \<open>measured\<close> is set.
\<close>

theorem measure_aligned:
  "length (measuredWidths (measureAllItems_resume s)) = length (items s)
   \<and> (\<forall>i < length (items s).
        measuredWidths (measureAllItems_resume s) ! i = Some (item_width (itemRefs s) i))
   \<and> (\<forall>i < length (items s). item_element (itemRefs s) i = None \<longrightarrow>
        measuredWidths (measureAllItems_resume s) ! i = Some (Fin 0))
   \<and> measured (measureAllItems_resume s)"
  by (simp add: measureAllItems_resume_def computeVisibleForCurrentWidth_def Let_def
      measure_widths_map item_width_def)

theorem measure_aligned_witness:
  "length (measuredWidths (measureAllItems_resume
       ((init :: (nat, nat) state)
          \<lparr>items := [7, 8, 9],
           itemRefs := [Some (Ref (Some (Element (Fin 0) (num 12)))), Some (Ref None)]\<rparr>))) = 3
   \<and> measuredWidths (measureAllItems_resume
       ((init :: (nat, nat) state)
          \<lparr>items := [7, 8, 9],
           itemRefs := [Some (Ref (Some (Element (Fin 0) (num 12)))), Some (Ref None)]\<rparr>)) ! 0
       = Some (num 12)
   \<and> measuredWidths (measureAllItems_resume
       ((init :: (nat, nat) state)
          \<lparr>items := [7, 8, 9],
           itemRefs := [Some (Ref (Some (Element (Fin 0) (num 12)))), Some (Ref None)]\<rparr>)) ! 1
       = Some (Fin 0)
   \<and> measuredWidths (measureAllItems_resume
       ((init :: (nat, nat) state)
          \<lparr>items := [7, 8, 9],
           itemRefs := [Some (Ref (Some (Element (Fin 0) (num 12)))), Some (Ref None)]\<rparr>)) ! 2
       = Some (Fin 0)"
proof -
  let ?s = "(init :: (nat, nat) state)
          \<lparr>items := [7, 8, 9],
           itemRefs := [Some (Ref (Some (Element (Fin 0) (num 12)))), Some (Ref None)]\<rparr>"
  have w: "item_width (itemRefs ?s) 0 = num 12" "item_element (itemRefs ?s) 1 = None"
    "item_element (itemRefs ?s) 2 = None"
    by (simp_all add: item_width_def item_element_def arr_get_def)
  have len: "length (measuredWidths (measureAllItems_resume ?s)) = length (items ?s)"
    using measure_aligned [of ?s] by blast
  have absent: "\<forall>i < length (items ?s). item_element (itemRefs ?s) i = None \<longrightarrow>
        measuredWidths (measureAllItems_resume ?s) ! i = Some (Fin 0)"
    using measure_aligned [of ?s] by blast
  have nth: "\<forall>i < length (items ?s).
        measuredWidths (measureAllItems_resume ?s) ! i = Some (item_width (itemRefs ?s) i)"
    using measure_aligned [of ?s] by blast
  have "measuredWidths (measureAllItems_resume ?s) ! 0 = Some (num 12)"
    using nth [rule_format, of 0] w(1) by simp
  moreover have "measuredWidths (measureAllItems_resume ?s) ! 1 = Some (Fin 0)"
    using absent [rule_format, of 1] w(2) by simp
  moreover have "measuredWidths (measureAllItems_resume ?s) ! 2 = Some (Fin 0)"
    using absent [rule_format, of 2] w(3) by simp
  moreover have "length (measuredWidths (measureAllItems_resume ?s)) = 3"
    using len by simp
  ultimately show ?thesis by simp
qed

section \<open>Rendering\<close>

lemma map_index_nth: "map_index f xs = map (\<lambda>i. f (xs ! i) i) [0..<length xs]"
  by (rule nth_equalityI) (simp_all add: map_index_def nth_enumerate_eq)

text \<open>
  Claim C6. \<open>render\<close> decides in this order. Without a renderer it returns the
  fixed placeholder. With one, while \<open>measured\<close> is false it returns the hidden
  container holding every item, and nothing else. Once \<open>measured\<close> is true it
  returns nothing for \<open>visibleCount = 0\<close>, and otherwise the items at the indices
  below \<open>visibleCount\<close> (as many as there are), in their order, the renderer
  getting each item with its index in \<open>items\<close>.
\<close>

theorem render_cases:
  "(renderer s = None \<longrightarrow> render s = NoRenderer)
   \<and> (renderer s = Some r \<and> \<not> measured s \<longrightarrow>
        render s = HiddenMeasure
          (map (\<lambda>i. (arr_get (itemRefs s) i, r (items s ! i) i)) [0..<length (items s)]))
   \<and> (renderer s = Some r \<and> measured s \<and> visibleCount s = 0 \<longrightarrow> render s = Nothing)
   \<and> (renderer s = Some r \<and> measured s \<and> 0 < visibleCount s \<longrightarrow>
        render s = VisibleItems
          (map (\<lambda>i. r (items s ! i) i) [0..<min (visibleCount s) (length (items s))]))"
  by (simp add: render_def map_index_nth min.commute)

theorem render_cases_witness:
  "render ((init :: (nat, nat) state)
       \<lparr>renderer := Some (\<lambda>item index. 10 * item + index), items := [1, 2, 3],
        measured := True, visibleCount := 2\<rparr>) = VisibleItems [10, 21]
   \<and> render ((init :: (nat, nat) state)
       \<lparr>renderer := Some (\<lambda>item index. 10 * item + index), items := [1, 2, 3],
        measured := True, visibleCount := 0\<rparr>) = Nothing
   \<and> render ((init :: (nat, nat) state)
       \<lparr>renderer := Some (\<lambda>item index. 10 * item + index), items := [1, 2],
        itemRefs := [Some (Ref None)]\<rparr>)
       = HiddenMeasure [(Some (Ref None), 10), (None, 21)]
   \<and> render ((init :: (nat, nat) state)\<lparr>items := [1, 2, 3]\<rparr>) = NoRenderer"
proof -
  let ?r = "\<lambda>item index. 10 * item + (index :: nat)"
  let ?a = "(init :: (nat, nat) state)
       \<lparr>renderer := Some ?r, items := [1, 2, 3], measured := True, visibleCount := 2\<rparr>"
  let ?b = "(init :: (nat, nat) state)
       \<lparr>renderer := Some ?r, items := [1, 2, 3], measured := True, visibleCount := 0\<rparr>"
  let ?c = "(init :: (nat, nat) state)
       \<lparr>renderer := Some ?r, items := [1, 2], itemRefs := [Some (Ref None)]\<rparr>"
  let ?d = "(init :: (nat, nat) state)\<lparr>items := [1, 2, 3]\<rparr>"
  have "render ?a = VisibleItems [10, 21]"
    using render_cases [of ?a ?r] by (simp add: upt_rec numeral_2_eq_2)
  moreover have "render ?b = Nothing"
    using render_cases [of ?b ?r] by simp
  moreover have "render ?c = HiddenMeasure [(Some (Ref None), 10), (None, 21)]"
    using render_cases [of ?c ?r] by (simp add: init_def arr_get_def upt_rec numeral_2_eq_2)
  moreover have "render ?d = NoRenderer"
    using render_cases [of ?d] by (simp add: init_def)
  ultimately show ?thesis by simp
qed

section \<open>The effect of the methods on the fields\<close>

lemma compute_eq:
  "computeVisibleForCurrentWidth s
     = s\<lparr>visibleCount := fit_count (measuredWidths s) (containerWidth s)\<rparr>"
  by (simp add: computeVisibleForCurrentWidth_def Let_def)

lemma fit_count_le: "fit_count ws cw \<le> length ws"
  by (simp add: fit_count_greedy greedy_le_length)

lemma length_measure_widths: "length (measure_widths s) = length (items s)"
  by (simp add: measure_widths_map)

lemma fit_count_measure_le: "fit_count (measure_widths s) cw \<le> length (items s)"
  using fit_count_le [of "measure_widths s" cw] by (simp add: length_measure_widths)

lemma measure_resume_eq:
  "measureAllItems_resume s
     = s\<lparr>measuredWidths := measure_widths s, measured := True,
          visibleCount := fit_count (measure_widths s) (containerWidth s)\<rparr>"
  by (simp add: measureAllItems_resume_def compute_eq containerWidth_def)

lemma run_timer_eq:
  "run_timer t s
     = s\<lparr>timers := filter (\<lambda>(k, due). k \<noteq> fst t) (timers s),
          visibleCount := fit_count (measuredWidths s) (containerWidth s),
          resizeTimeout := None\<rparr>"
  by (simp add: run_timer_def timeout_callback_def clearTimeout_def compute_eq containerWidth_def)

lemma run_append:
  "run (es @ es') s = (case run es s of None \<Rightarrow> None | Some s' \<Rightarrow> run es' s')"
  by (induction es arbitrary: s) (simp_all split: option.splits)

lemma run_split:
  assumes "run (es @ e # es') s0 = Some s2"
  shows "\<exists>s s1. run es s0 = Some s \<and> step e s = Some s1 \<and> run es' s1 = Some s2"
  using assms by (auto simp: run_append split: option.splits)

lemma fires_append:
  "run es s = Some s' \<Longrightarrow> fires (es @ es') s = fires es s + fires es' s'"
  by (induction es arbitrary: s) (auto split: option.splits)

section \<open>Measured widths and the item sequence\<close>

lemma widths_inv_run_timer: "widths_inv s \<Longrightarrow> widths_inv (run_timer t s)"
  by (simp add: widths_inv_def run_timer_eq fit_count_le)

lemma widths_inv_fold: "widths_inv s \<Longrightarrow> widths_inv (fold run_timer ts s)"
  by (induction ts arbitrary: s) (simp_all add: widths_inv_run_timer)

lemma widths_inv_clock: "widths_inv (s\<lparr>clock := c\<rparr>) = widths_inv s"
  by (simp add: widths_inv_def)

lemma widths_inv_resume: "widths_inv s \<Longrightarrow> widths_inv (resume t s)"
  by (cases t)
    (auto simp: widths_inv_def measure_resume_eq Let_def fit_count_measure_le length_measure_widths)

lemma widths_inv_tasks: "widths_inv (s\<lparr>tasks := ts\<rparr>) = widths_inv s"
  by (simp add: widths_inv_def)

lemma widths_inv_update: "widths_inv s \<Longrightarrow> widths_inv (update s)"
  by (auto simp: widths_inv_def update_def updated_def firstUpdated_begin_def ensureRefs_def Let_def)

lemma widths_inv_step:
  assumes "widths_inv s" and "step e s = Some s'"
  shows "widths_inv s'"
proof (cases e)
  case Update
  with assms show ?thesis by (auto simp: widths_inv_update split: if_splits)
next
  case (Resume k)
  with assms show ?thesis
    by (auto simp: widths_inv_resume widths_inv_tasks split: option.splits)
next
  case (Advance d)
  with assms show ?thesis
    by (auto simp: advance_def widths_inv_fold widths_inv_clock)
next
  case Resize
  with assms show ?thesis
    by (auto simp: widths_inv_def onContainerResize_def clear_resizeTimeout_def clearTimeout_def
        Let_def split: if_splits option.splits)
next
  case Disconnect
  with assms show ?thesis
    by (auto simp: widths_inv_def disconnectedCallback_def clear_resizeTimeout_def
        clearTimeout_def split: if_splits option.splits)
qed (use assms in \<open>auto simp: widths_inv_def split: if_splits option.splits\<close>)

lemma widths_inv_run: "widths_inv s \<Longrightarrow> run es s = Some s' \<Longrightarrow> widths_inv s'"
proof (induction es arbitrary: s)
  case Nil
  then show ?case by simp
next
  case (Cons e es)
  then show ?case by (auto split: option.splits dest: widths_inv_step)
qed

lemma widths_inv_init: "widths_inv init"
  by (simp add: widths_inv_def init_def)

text \<open>
  Claim C4, as the code has it. In every state an instance can reach,
  \<open>visibleCount\<close> is at most the number of measured widths; and whenever
  \<open>measured\<close> is true and no replacement of \<open>items\<close> is waiting for its update,
  \<open>measuredWidths\<close> has exactly as many entries as \<open>items\<close> and \<open>visibleCount\<close>
  is at most the number of items.
\<close>

theorem measured_widths_aligned:
  assumes "run es init = Some s"
  shows "visibleCount s \<le> length (measuredWidths s)
       \<and> (measured s \<and> \<not> changedItems s \<longrightarrow>
            length (measuredWidths s) = length (items s) \<and> visibleCount s \<le> length (items s))"
  using widths_inv_run [OF widths_inv_init assms] by (auto simp: widths_inv_def)

theorem measured_widths_aligned_witness:
  "map_option (\<lambda>s. (measured s, changedItems s, length (measuredWidths s), length (items s),
                     visibleCount s \<le> length (items s)))
      (run replace_trace init) = Some (True, False, 2, 2, True)"
proof -
  have "map_option (\<lambda>s. (measured s, changedItems s, length (measuredWidths s)))
          (run replace_trace init) = Some (True, False, 2)"
    unfolding replace_trace_def by code_simp
  then obtain s where s: "run replace_trace init = Some s" "measured s" "\<not> changedItems s"
    "length (measuredWidths s) = 2"
    by (cases "run replace_trace init") auto
  from measured_widths_aligned [OF s(1)] s show ?thesis by simp
qed

text \<open>
  The claim C4 as the specification states it fails in the time between a
  replacement of \<open>items\<close> and the update that follows it (\<open>updated\<close> resets
  \<open>measured\<close> only after that update has rendered): after \<open>replace_trace\<close>, a
  replacement of the two items by one leaves \<open>measured\<close> true with two measured
  widths and \<open>visibleCount = 2\<close> for one item.
\<close>

theorem stale_widths_counterexample:
  "map_option (\<lambda>s. (measured s, length (measuredWidths s), length (items s), visibleCount s))
      (run (replace_trace @ [SetItems [9]]) init) = Some (True, 2, 1, 2)"
  unfolding replace_trace_def by code_simp

section \<open>Teardown\<close>

lemma clear_resizeTimeout_eq:
  "clear_resizeTimeout s = s\<lparr>timers := timers (clear_resizeTimeout s)\<rparr>"
  by (simp add: clear_resizeTimeout_def clearTimeout_def split: option.splits)

lemma timers_clear_inv: "timers_inv s \<Longrightarrow> timers (clear_resizeTimeout s) = []"
proof -
  assume inv: "timers_inv s"
  show ?thesis
  proof (cases "timers s")
    case Nil
    then show ?thesis
      by (simp add: clear_resizeTimeout_def clearTimeout_def split: option.splits)
  next
    case (Cons t ts)
    with inv obtain h where h: "resizeTimeout s = Some h" "h \<noteq> 0"
      by (auto simp: timers_inv_def)
    with inv have "\<forall>t\<in>set (timers s). fst t = h" by (auto simp: timers_inv_def)
    then have "filter (\<lambda>(k, due). k \<noteq> h) (timers s) = []"
      by (auto simp: filter_empty_conv)
    with h show ?thesis by (simp add: clear_resizeTimeout_def clearTimeout_def)
  qed
qed

lemma timers_clear_empty: "timers s = [] \<Longrightarrow> timers (clear_resizeTimeout s) = []"
  by (simp add: clear_resizeTimeout_def clearTimeout_def split: option.splits)

lemma onContainerResize_eq:
  "timers (clear_resizeTimeout s) = [] \<Longrightarrow>
   onContainerResize s
     = s\<lparr>timers := [(nextTimer s, clock s + 50)], nextTimer := nextTimer s + 1,
          resizeTimeout := Some (nextTimer s)\<rparr>"
proof -
  assume "timers (clear_resizeTimeout s) = []"
  with clear_resizeTimeout_eq [of s] have c: "clear_resizeTimeout s = s\<lparr>timers := []\<rparr>"
    by simp
  show ?thesis by (simp add: onContainerResize_def c Let_def)
qed

lemma disconnectedCallback_eq:
  "timers (clear_resizeTimeout s) = [] \<Longrightarrow>
   disconnectedCallback s = s\<lparr>resizeObserver := None, timers := []\<rparr>"
proof -
  let ?s = "s\<lparr>resizeObserver := None\<rparr>"
  assume a: "timers (clear_resizeTimeout s) = []"
  have d: "disconnectedCallback s = clear_resizeTimeout ?s"
  proof (cases "resizeObserver s")
    case None
    then have "?s = s" by (cases s) simp
    then have "clear_resizeTimeout ?s = clear_resizeTimeout s" by (rule arg_cong)
    with None show ?thesis by (simp only: disconnectedCallback_def simp_thms if_False)
  next
    case (Some t)
    then show ?thesis by (simp add: disconnectedCallback_def)
  qed
  have "timers (clear_resizeTimeout ?s) = timers (clear_resizeTimeout s)"
    by (simp add: clear_resizeTimeout_def clearTimeout_def split: option.splits)
  with a clear_resizeTimeout_eq [of ?s] have "clear_resizeTimeout ?s = ?s\<lparr>timers := []\<rparr>"
    by simp
  with d show ?thesis by simp
qed

lemma run_timer_timers_empty:
  "timers s = [] \<Longrightarrow> timers (fold run_timer ts s) = []"
  by (induction ts arbitrary: s) (simp_all add: run_timer_eq)

lemma fold_run_timer_nextTimer: "nextTimer (fold run_timer ts s) = nextTimer s"
  by (induction ts arbitrary: s) (simp_all add: run_timer_eq)

lemma timers_inv_advance: "timers_inv s \<Longrightarrow> timers_inv (advance d s)"
proof -
  assume inv: "timers_inv s"
  show ?thesis
  proof (cases "due_timers d s")
    case Nil
    with inv show ?thesis by (simp add: advance_def timers_inv_def)
  next
    case (Cons t ts)
    then have "t \<in> set (timers s)"
      by (metis due_timers_def filter_is_subset list.set_intros(1) subsetD)
    from inv have R: "\<And>u. u \<in> set (timers s) \<Longrightarrow> resizeTimeout s = Some (fst u)"
      by (simp add: timers_inv_def)
    have "\<forall>u\<in>set (timers s). fst u = fst t"
    proof
      fix u assume "u \<in> set (timers s)"
      from R [OF this] R [OF \<open>t \<in> set (timers s)\<close>] show "fst u = fst t" by simp
    qed
    then have "filter (\<lambda>(k, due). k \<noteq> fst t) (timers s) = []"
      by (auto simp: filter_empty_conv)
    then have "timers (run_timer t (s\<lparr>clock := clock s + d\<rparr>)) = []"
      by (simp add: run_timer_eq)
    then have "timers (advance d s) = []"
      by (simp add: advance_def Cons run_timer_timers_empty)
    moreover have "nextTimer (advance d s) = nextTimer s"
      by (simp add: advance_def fold_run_timer_nextTimer)
    ultimately show ?thesis using inv by (simp add: timers_inv_def)
  qed
qed

lemma timers_inv_resume: "timers_inv (resume t s) = timers_inv s"
  by (cases t) (auto simp: timers_inv_def measure_resume_eq Let_def)

lemma timers_inv_tasks: "timers_inv (s\<lparr>tasks := ts\<rparr>) = timers_inv s"
  by (simp add: timers_inv_def)

lemma timers_inv_update: "timers_inv (update s) = timers_inv s"
  by (auto simp: timers_inv_def update_def updated_def firstUpdated_begin_def ensureRefs_def Let_def)

lemma timers_inv_step:
  assumes "timers_inv s" and "step e s = Some s'"
  shows "timers_inv s'"
proof (cases e)
  case Update
  with assms show ?thesis by (auto simp: timers_inv_update split: if_splits)
next
  case (Resume k)
  with assms show ?thesis
    by (auto simp: timers_inv_resume timers_inv_tasks split: option.splits)
next
  case (Advance d)
  with assms show ?thesis by (auto simp: timers_inv_advance)
next
  case Resize
  with assms show ?thesis
    by (auto simp: onContainerResize_eq timers_clear_inv timers_inv_def split: if_splits)
next
  case Disconnect
  with assms have "timers (clear_resizeTimeout (s\<lparr>isConnected := False\<rparr>)) = []"
    by (intro timers_clear_inv) (simp add: timers_inv_def)
  with Disconnect assms show ?thesis
    by (auto simp: disconnectedCallback_eq timers_inv_def split: if_splits)
qed (use assms in \<open>auto simp: timers_inv_def split: if_splits option.splits\<close>)

lemma timers_inv_run: "timers_inv s \<Longrightarrow> run es s = Some s' \<Longrightarrow> timers_inv s'"
proof (induction es arbitrary: s)
  case Nil
  then show ?case by simp
next
  case (Cons e es)
  then show ?case by (auto split: option.splits dest: timers_inv_step)
qed

lemma timers_inv_init: "timers_inv init"
  by (simp add: timers_inv_def init_def)

lemma disconnect_step:
  assumes "timers_inv s" and "step Disconnect s = Some s1"
  shows "s1 = s\<lparr>isConnected := False, resizeObserver := None, timers := []\<rparr>"
proof -
  from assms have "timers (clear_resizeTimeout (s\<lparr>isConnected := False\<rparr>)) = []"
    by (intro timers_clear_inv) (simp add: timers_inv_def)
  with assms show ?thesis by (auto simp: disconnectedCallback_eq split: if_splits)
qed

lemma advance_no_timers: "timers s = [] \<Longrightarrow> advance d s = s\<lparr>clock := clock s + d\<rparr>"
  by (simp add: advance_def due_timers_def)

lemma quiet_step:
  assumes "quiet s" and "step e s = Some s'" and "\<not> is_async e"
  shows "quiet s' \<and> fired e s = 0 \<and> measuredWidths s' = measuredWidths s
         \<and> measured s' = measured s \<and> visibleCount s' = visibleCount s"
proof (cases e)
  case (Advance d)
  with assms show ?thesis by (auto simp: quiet_def advance_no_timers due_timers_def)
next
  case Disconnect
  with assms have "timers (clear_resizeTimeout (s\<lparr>isConnected := False\<rparr>)) = []"
    by (intro timers_clear_empty) (simp add: quiet_def)
  with Disconnect assms show ?thesis
    by (auto simp: disconnectedCallback_eq quiet_def split: if_splits)
qed (use assms in \<open>auto simp: quiet_def split: if_splits option.splits\<close>)

lemma quiet_run:
  assumes "quiet s" and "run es s = Some s'" and "\<forall>e\<in>set es. \<not> is_async e"
  shows "quiet s' \<and> fires es s = 0 \<and> measuredWidths s' = measuredWidths s
         \<and> measured s' = measured s \<and> visibleCount s' = visibleCount s"
  using assms
proof (induction es arbitrary: s)
  case Nil
  then show ?case by simp
next
  case (Cons e es)
  from Cons.prems obtain s1 where s1: "step e s = Some s1" and r: "run es s1 = Some s'"
    by (auto split: option.splits)
  from Cons.prems have e: "\<not> is_async e" and es: "\<forall>e\<in>set es. \<not> is_async e" by simp_all
  note q = quiet_step [OF Cons.prems(1) s1 e]
  from q have q1: "quiet s1" by simp
  from Cons.IH [OF q1 r es] q s1 show ?case by simp
qed

text \<open>
  Claim C3, as the code has it. \<open>disconnectedCallback\<close> cancels the pending timeout
  and disconnects the resize observer at once, and itself leaves \<open>measuredWidths\<close>,
  \<open>measured\<close> and \<open>visibleCount\<close> as they are. From then on, as long as the element
  is not updated and no suspended asynchronous call continues, no timeout callback
  runs, no resize notification can arrive, and the three fields keep their values,
  whatever else happens (time passing, the parent changing, the caller setting
  properties, further connects and disconnects).
\<close>

theorem teardown_cancels:
  assumes "run es init = Some s" and "step Disconnect s = Some s1"
    and "run es' s1 = Some s2" and "\<forall>e\<in>set es'. \<not> is_async e"
  shows "timers s1 = [] \<and> resizeObserver s1 = None
       \<and> measuredWidths s1 = measuredWidths s \<and> measured s1 = measured s
       \<and> visibleCount s1 = visibleCount s
       \<and> fires es' s1 = 0 \<and> step Resize s2 = None
       \<and> measuredWidths s2 = measuredWidths s \<and> measured s2 = measured s
       \<and> visibleCount s2 = visibleCount s"
proof -
  have inv: "timers_inv s" using timers_inv_run [OF timers_inv_init assms(1)] .
  note s1 = disconnect_step [OF inv assms(2)]
  then have q: "quiet s1" by (simp add: quiet_def)
  from quiet_run [OF q assms(3,4)] s1 show ?thesis by (simp add: quiet_def)
qed

theorem teardown_cancels_witness:
  "map_option (\<lambda>s. (timers s, resizeObserver s, measured s, measuredWidths s, visibleCount s))
      (run (resized_load @ Disconnect # teardown_trace) init)
     = Some ([], None, True, [Some (Fin 0), Some (Fin 0)], 2)"
proof -
  have "map_option (\<lambda>s. True) (run (resized_load @ Disconnect # teardown_trace) init)
          = Some True"
    unfolding resized_load_def first_load_def teardown_trace_def by code_simp
  then obtain s2 where full: "run (resized_load @ Disconnect # teardown_trace) init = Some s2"
    by (cases "run (resized_load @ Disconnect # teardown_trace) init") auto
  from run_split [OF full] obtain s s1 where
    s: "run resized_load init = Some s" and s1: "step Disconnect s = Some s1"
    and s2: "run teardown_trace s1 = Some s2" by blast
  have na: "\<forall>e\<in>set teardown_trace. \<not> is_async e" by (simp add: teardown_trace_def)
  have "map_option (\<lambda>s. (measured s, measuredWidths s, visibleCount s))
          (run resized_load init) = Some (True, [Some (Fin 0), Some (Fin 0)], 2)"
    unfolding resized_load_def first_load_def by code_simp
  with s have v: "measured s" "measuredWidths s = [Some (Fin 0), Some (Fin 0)]" "visibleCount s = 2"
    by simp_all
  from teardown_cancels [OF s s1 s2 na] v have
    "measured s2" "measuredWidths s2 = [Some (Fin 0), Some (Fin 0)]" "visibleCount s2 = 2"
    "step Resize s2 = None" "timers s1 = []" "fires teardown_trace s1 = 0"
    by simp_all
  moreover from this(4) have "resizeObserver s2 = None" by (simp split: if_splits)
  moreover have "timers s2 = []"
    using s2 \<open>timers s1 = []\<close> by (auto simp: teardown_trace_def advance_no_timers)
  ultimately show ?thesis by (simp add: full)
qed

text \<open>
  The claim C3 as the specification states it fails for a measurement in flight:
  \<open>measureAllItems\<close> has no guard after its \<open>await\<close>, so a call suspended before
  the teardown writes all three fields when it continues after it.
\<close>

theorem teardown_counterexample:
  "map_option (\<lambda>s. (isConnected s, measured s, measuredWidths s, visibleCount s))
      (run [SetItems [7], Connect None, Update, Disconnect] (init :: (nat, nat) state))
     = Some (False, False, [], 0)
   \<and> map_option (\<lambda>s. (isConnected s, measured s, measuredWidths s, visibleCount s))
      (run [SetItems [7], Connect None, Update, Disconnect, Resume 0] (init :: (nat, nat) state))
     = Some (False, True, [Some (Fin 0)], 1)"
  by code_simp

section \<open>The resize observer\<close>

lemma filter_remove_nth:
  assumes "k < length xs"
  shows "length (filter P (take k xs @ drop (Suc k) xs)) + (if P (xs ! k) then 1 else 0)
           = length (filter P xs)"
proof -
  from assms have "xs = take k xs @ xs ! k # drop (Suc k) xs"
    by (rule id_take_nth_drop)
  then have "length (filter P xs) = length (filter P (take k xs @ xs ! k # drop (Suc k) xs))"
    by simp
  then show ?thesis by simp
qed

lemma pending_first_resume:
  assumes "k < length (tasks s)"
  shows "created s (resume (tasks s ! k) (s\<lparr>tasks := take k (tasks s) @ drop (Suc k) (tasks s)\<rparr>))
          + pending_first (resume (tasks s ! k)
              (s\<lparr>tasks := take k (tasks s) @ drop (Suc k) (tasks s)\<rparr>))
          \<le> pending_first s"
  using filter_remove_nth [OF assms, of is_first]
  by (cases "tasks s ! k")
    (auto simp: pending_first_def created_def measure_resume_eq Let_def split: if_splits)

lemma pending_first_update: "pending_first (update s) = pending_first s"
  by (auto simp: pending_first_def update_def updated_def firstUpdated_begin_def ensureRefs_def
      Let_def)

lemma observer_update: "resizeObserver (update s) = resizeObserver s"
  by (auto simp: update_def updated_def firstUpdated_begin_def ensureRefs_def Let_def)

lemma fold_run_timer_frame:
  "resizeObserver (fold run_timer ts s) = resizeObserver s
   \<and> tasks (fold run_timer ts s) = tasks s
   \<and> hasUpdated (fold run_timer ts s) = hasUpdated s"
  by (induction ts arbitrary: s) (simp_all add: run_timer_eq)

lemma advance_frame:
  "resizeObserver (advance d s) = resizeObserver s
   \<and> tasks (advance d s) = tasks s \<and> hasUpdated (advance d s) = hasUpdated s"
  by (simp add: advance_def fold_run_timer_frame)

lemma onContainerResize_frame:
  "resizeObserver (onContainerResize s) = resizeObserver s
   \<and> tasks (onContainerResize s) = tasks s \<and> hasUpdated (onContainerResize s) = hasUpdated s"
  by (simp add: onContainerResize_def clear_resizeTimeout_def clearTimeout_def Let_def
      split: option.splits)

lemma disconnectedCallback_frame:
  "resizeObserver (disconnectedCallback s) = None
   \<and> tasks (disconnectedCallback s) = tasks s
   \<and> hasUpdated (disconnectedCallback s) = hasUpdated s"
  by (simp add: disconnectedCallback_def clear_resizeTimeout_def clearTimeout_def
      split: option.splits)

lemma created_step:
  assumes "step e s = Some s'"
  shows "created s s' + pending_first s' \<le> pending_first s"
proof (cases e)
  case Update
  with assms show ?thesis
    by (auto simp: created_def pending_first_update observer_update split: if_splits)
next
  case (Resume k)
  with assms have k: "k < length (tasks s)"
    and s': "s' = resume (tasks s ! k) (s\<lparr>tasks := take k (tasks s) @ drop (Suc k) (tasks s)\<rparr>)"
    by (auto simp: js_index_def split: if_splits option.splits)
  from pending_first_resume [OF k] s' show ?thesis by simp
next
  case (Advance d)
  with assms show ?thesis by (auto simp: created_def pending_first_def advance_frame)
next
  case Resize
  with assms show ?thesis
    by (auto simp: created_def pending_first_def onContainerResize_frame split: if_splits)
next
  case Disconnect
  with assms show ?thesis
    by (auto simp: created_def pending_first_def disconnectedCallback_frame split: if_splits)
qed (use assms in \<open>auto simp: created_def pending_first_def split: if_splits option.splits\<close>)

lemma creations_Cons:
  "step e s = Some s' \<Longrightarrow> creations (e # es) s = created s s' + creations es s'"
  by (simp add: created_def)

lemma creations_stuck: "step e s = None \<Longrightarrow> creations (e # es) s = 0"
  by simp

lemma creations_le: "creations es s \<le> pending_first s"
proof (induction es arbitrary: s)
  case Nil
  then show ?case by simp
next
  case (Cons e es)
  show ?case
  proof (cases "step e s")
    case None
    then show ?thesis by (simp only: creations_stuck)
  next
    case (Some s')
    from created_step [OF Some] Cons.IH [of s'] show ?thesis
      by (simp only: creations_Cons [OF Some])
  qed
qed

lemma first_inv_step:
  assumes "first_inv s" and "step e s = Some s'"
  shows "first_inv s'"
proof -
  from created_step [OF assms(2)] have le: "created s s' + pending_first s' \<le> pending_first s" .
  show ?thesis
  proof (cases "resizeObserver s'")
    case None
    with assms(1) le show ?thesis by (simp add: first_inv_def)
  next
    case (Some t)
    show ?thesis
    proof (cases "resizeObserver s")
      case None
      with Some have "created s s' = 1" by (simp add: created_def)
      with assms(1) le show ?thesis by (simp add: first_inv_def)
    next
      case obs: (Some u)
      with assms(1) have "pending_first s = 0" by (simp add: first_inv_def)
      with le show ?thesis by (simp add: first_inv_def)
    qed
  qed
qed

lemma first_inv_run: "first_inv s \<Longrightarrow> run es s = Some s' \<Longrightarrow> first_inv s'"
proof (induction es arbitrary: s)
  case Nil
  then show ?case by simp
next
  case (Cons e es)
  then show ?case by (auto split: option.splits dest: first_inv_step)
qed

lemma first_inv_init: "first_inv init"
  by (simp add: first_inv_def pending_first_def init_def)

lemma dead_step:
  assumes "dead s" and "step e s = Some s'"
  shows "dead s' \<and> fired e s = 0 \<and> created s s' = 0"
proof -
  from created_step [OF assms(2)] assms(1)
  have p: "pending_first s' = 0" and c: "created s s' = 0" by (simp_all add: dead_def)
  from c assms(1) have o: "resizeObserver s' = None"
    by (cases "resizeObserver s'") (simp_all add: created_def dead_def)
  have "timers s' = [] \<and> fired e s = 0"
  proof (cases e)
    case Update
    with assms show ?thesis
      by (auto simp: dead_def update_def updated_def firstUpdated_begin_def ensureRefs_def Let_def
          split: if_splits)
  next
    case (Resume k)
    with assms obtain t where "s' = resume t (s\<lparr>tasks := take k (tasks s) @ drop (Suc k) (tasks s)\<rparr>)"
      by (auto split: option.splits)
    with assms(1) Resume show ?thesis
      by (cases t) (auto simp: dead_def measure_resume_eq Let_def)
  next
    case (Advance d)
    with assms show ?thesis by (auto simp: dead_def advance_no_timers due_timers_def)
  next
    case Resize
    with assms show ?thesis by (auto simp: dead_def)
  next
    case Disconnect
    with assms have "timers (clear_resizeTimeout (s\<lparr>isConnected := False\<rparr>)) = []"
      by (intro timers_clear_empty) (simp add: dead_def)
    with Disconnect assms show ?thesis
      by (auto simp: disconnectedCallback_eq split: if_splits)
  qed (use assms in \<open>auto simp: dead_def split: if_splits option.splits\<close>)
  with p c o show ?thesis by (simp add: dead_def)
qed

lemma dead_run:
  assumes "dead s" and "run es s = Some s'"
  shows "dead s' \<and> fires es s = 0 \<and> creations es s = 0"
  using assms
proof (induction es arbitrary: s)
  case Nil
  then show ?case by simp
next
  case (Cons e es)
  from Cons.prems obtain s1 where s1: "step e s = Some s1" and r: "run es s1 = Some s'"
    by (auto split: option.splits)
  note d = dead_step [OF Cons.prems(1) s1]
  from d have d1: "dead s1" by simp
  from Cons.IH [OF d1 r] d s1 show ?case by (simp add: created_def)
qed

text \<open>
  Claim C10. In the whole life of an instance the resize observer is created at most
  once (by \<open>firstUpdated\<close>, which runs once, under its null check). Once
  \<open>disconnectedCallback\<close> has disconnected an existing observer and set the field
  to \<open>null\<close>, nothing creates one again: whatever happens afterwards, including
  connecting the element again, the field stays \<open>null\<close>, no resize notification
  can arrive, and no timeout callback runs.
\<close>

theorem observer_created_once:
  "creations es init \<le> 1
   \<and> (\<forall>s s1 es' s2.
        run es init = Some s \<and> resizeObserver s \<noteq> None \<and> step Disconnect s = Some s1
          \<and> run es' s1 = Some s2 \<longrightarrow>
        resizeObserver s1 = None \<and> creations es' s1 = 0 \<and> resizeObserver s2 = None
          \<and> step Resize s2 = None \<and> fires es' s1 = 0)"
proof (intro conjI allI impI)
  show "creations es init \<le> 1"
    using creations_le [of es init] by (simp add: pending_first_def init_def)
next
  fix s s1 :: "('a, 'b) state" and es' s2
  assume a: "run es init = Some s \<and> resizeObserver s \<noteq> None \<and> step Disconnect s = Some s1
          \<and> run es' s1 = Some s2"
  then have r: "run es init = Some s" and o: "resizeObserver s \<noteq> None"
    and d: "step Disconnect s = Some s1" and r': "run es' s1 = Some s2" by simp_all
  have "first_inv s" using first_inv_run [OF first_inv_init r] .
  with o have p: "pending_first s = 0" by (simp add: first_inv_def)
  have "timers_inv s" using timers_inv_run [OF timers_inv_init r] .
  note s1 = disconnect_step [OF this d]
  with p have dead1: "dead s1" by (simp add: dead_def pending_first_def)
  note fin = dead_run [OF dead1 r']
  show "resizeObserver s1 = None" using dead1 by (simp add: dead_def)
  show "creations es' s1 = 0" using fin by simp
  show "resizeObserver s2 = None" using fin by (simp add: dead_def)
  show "step Resize s2 = None" using fin by (simp add: dead_def)
  show "fires es' s1 = 0" using fin by simp
qed

theorem observer_created_once_witness:
  "creations (first_load @ Disconnect # reattach_trace) init \<le> 1
   \<and> map_option resizeObserver (run first_load init) = Some (Some ParentTarget)
   \<and> map_option resizeObserver (run (first_load @ Disconnect # reattach_trace) init) = Some None"
proof -
  have "map_option (\<lambda>s. True) (run (first_load @ Disconnect # reattach_trace) init) = Some True"
    unfolding first_load_def reattach_trace_def by code_simp
  then obtain s2 where full: "run (first_load @ Disconnect # reattach_trace) init = Some s2"
    by (cases "run (first_load @ Disconnect # reattach_trace) init") auto
  from run_split [OF this] obtain s s1 where
    s: "run first_load init = Some s" and s1: "step Disconnect s = Some s1"
    and s2: "run reattach_trace s1 = Some s2" by blast
  have o: "map_option resizeObserver (run first_load init) = Some (Some ParentTarget)"
    unfolding first_load_def by code_simp
  with s have obs: "resizeObserver s \<noteq> None" by simp
  have c: "creations (first_load @ Disconnect # reattach_trace) init \<le> 1"
    using observer_created_once [of "first_load @ Disconnect # reattach_trace"] by blast
  have "resizeObserver s2 = None"
    using observer_created_once [of first_load] s obs s1 s2 by blast
  with c o full show ?thesis by simp
qed

section \<open>Debouncing\<close>

lemma burst_events_Cons:
  "burst_events ((d, p) # b) = [Advance d, SetParent p, Resize] @ burst_events b"
  by (simp add: burst_events_def)

lemma notify:
  assumes inv: "timers_inv s" and obs: "resizeObserver s \<noteq> None" and calm: "due_timers d s = []"
  shows "run [Advance d, SetParent p, Resize] s
           = Some (s\<lparr>clock := clock s + d, parentElement := p,
                     timers := [(nextTimer s, clock s + d + 50)],
                     nextTimer := nextTimer s + 1,
                     resizeTimeout := Some (nextTimer s)\<rparr>)
         \<and> fires [Advance d, SetParent p, Resize] s = 0"
proof -
  let ?s1 = "s\<lparr>clock := clock s + d\<rparr>"
  let ?s2 = "?s1\<lparr>parentElement := p\<rparr>"
  have a: "advance d s = ?s1" using calm by (simp add: advance_def)
  have "timers_inv ?s2" using inv by (simp add: timers_inv_def)
  then have "timers (clear_resizeTimeout ?s2) = []" by (rule timers_clear_inv)
  then have r: "onContainerResize ?s2
     = ?s2\<lparr>timers := [(nextTimer ?s2, clock ?s2 + 50)], nextTimer := nextTimer ?s2 + 1,
          resizeTimeout := Some (nextTimer ?s2)\<rparr>"
    by (rule onContainerResize_eq)
  show ?thesis using obs calm by (simp add: a r)
qed

lemma burst_run:
  assumes "timers_inv s" and "resizeObserver s \<noteq> None" and "b \<noteq> []"
    and "due_timers (fst (hd b)) s = []" and "\<forall>(d, p)\<in>set (tl b). d < 50"
  shows "\<exists>s1 h. run (burst_events b) s = Some s1 \<and> fires (burst_events b) s = 0
           \<and> timers s1 = [(h, clock s1 + 50)] \<and> parentElement s1 = snd (last b)
           \<and> measuredWidths s1 = measuredWidths s
           \<and> clock s1 = clock s + sum_list (map fst b)"
  using assms
proof (induction b arbitrary: s)
  case Nil
  then show ?case by simp
next
  case (Cons x b)
  obtain d p where x: "x = (d, p)" by (cases x)
  let ?s' = "s\<lparr>clock := clock s + d, parentElement := p,
                     timers := [(nextTimer s, clock s + d + 50)],
                     nextTimer := nextTimer s + 1,
                     resizeTimeout := Some (nextTimer s)\<rparr>"
  from Cons.prems x have calm: "due_timers d s = []" by simp
  note n = notify [OF Cons.prems(1,2) calm, of p]
  then have r: "run [Advance d, SetParent p, Resize] s = Some ?s'"
    and f: "fires [Advance d, SetParent p, Resize] s = 0" by simp_all
  show ?case
  proof (cases b)
    case Nil
    with r f x show ?thesis by (simp add: burst_events_def)
  next
    case (Cons y ys)
    have inv': "timers_inv ?s'" using Cons.prems(1) by (simp add: timers_inv_def)
    have obs': "resizeObserver ?s' \<noteq> None" using Cons.prems(2) by simp
    have ne: "b \<noteq> []" using Cons by simp
    from Cons.prems(5) Cons have "fst y < 50" by auto
    then have calm': "due_timers (fst (hd b)) ?s' = []" using Cons by (simp add: due_timers_def)
    from Cons.prems(5) Cons have tl: "\<forall>(d, p)\<in>set (tl b). d < 50" by simp
    from Cons.IH [OF inv' obs' ne calm' tl] obtain s1 h where
      s1: "run (burst_events b) ?s' = Some s1" "fires (burst_events b) ?s' = 0"
        "timers s1 = [(h, clock s1 + 50)]" "parentElement s1 = snd (last b)"
        "measuredWidths s1 = measuredWidths ?s'" "clock s1 = clock ?s' + sum_list (map fst b)"
      by blast
    have "run (burst_events (x # b)) s = Some s1"
      by (simp only: x burst_events_Cons run_append r option.case s1)
    moreover have "fires (burst_events (x # b)) s = 0"
      by (simp only: x burst_events_Cons fires_append [OF r] f s1 add_0)
    ultimately show ?thesis using s1 ne x by (auto simp: add.assoc)
  qed
qed

text \<open>
  Claim C5. Take a state with a resize observer and no pending timeout, and a burst
  of one or more resize notifications, each coming less than 50 milliseconds after
  the one before. During the burst no timeout callback runs; after its last
  notification exactly one timeout is pending, due 50 milliseconds after that
  notification; and once 50 milliseconds or more have passed, exactly one callback
  has run, no timeout is pending, and \<open>visibleCount\<close> is the fit of the measured
  widths to the width the container has then (the one of the last notification).
\<close>

theorem debounce_burst:
  assumes "nextTimer s \<noteq> 0" and "timers s = []" and "resizeObserver s \<noteq> None"
    and "b \<noteq> []" and "\<forall>(d, p)\<in>set (tl b). d < 50" and "50 \<le> d'"
  shows "fires (burst_events b) s = 0
       \<and> fires (burst_events b @ [Advance d']) s = 1
       \<and> (\<exists>s1 h. run (burst_events b) s = Some s1 \<and> timers s1 = [(h, clock s1 + 50)]
             \<and> clock s1 = clock s + sum_list (map fst b))
       \<and> (\<exists>s2. run (burst_events b @ [Advance d']) s = Some s2 \<and> timers s2 = []
             \<and> visibleCount s2
                 = fit_count (measuredWidths s) (or_zero (map_option clientWidth (snd (last b)))))"
proof -
  have inv: "timers_inv s" using assms(1,2) by (simp add: timers_inv_def)
  have calm: "due_timers (fst (hd b)) s = []" using assms(2) by (simp add: due_timers_def)
  from burst_run [OF inv assms(3,4) calm assms(5)] obtain s1 h where
    s1: "run (burst_events b) s = Some s1" "fires (burst_events b) s = 0"
      "timers s1 = [(h, clock s1 + 50)]" "parentElement s1 = snd (last b)"
      "measuredWidths s1 = measuredWidths s" "clock s1 = clock s + sum_list (map fst b)"
    by blast
  have due: "due_timers d' s1 = [(h, clock s1 + 50)]"
    using s1(3) assms(6) by (simp add: due_timers_def)
  have f: "fires [Advance d'] s1 = 1" by (simp add: due)
  let ?s2 = "advance d' s1"
  have r2: "run (burst_events b @ [Advance d']) s = Some ?s2"
    by (simp add: run_append s1(1))
  have t2: "timers ?s2 = []"
    by (simp add: advance_def due run_timer_eq s1(3))
  have v2: "visibleCount ?s2
      = fit_count (measuredWidths s) (or_zero (map_option clientWidth (snd (last b))))"
    by (simp add: advance_def due run_timer_eq s1(4,5) containerWidth_def)
  have "fires (burst_events b @ [Advance d']) s = 1"
    by (simp only: fires_append [OF s1(1)] s1(2) f add_0)
  with s1 r2 t2 v2 show ?thesis by blast
qed

theorem debounce_burst_witness:
  "fires (burst_events resize_burst) fitted_state = 0
   \<and> fires (burst_events resize_burst @ [Advance 50]) fitted_state = 1
   \<and> map_option (\<lambda>s. (timers s, visibleCount s))
        (run (burst_events resize_burst @ [Advance 50]) fitted_state) = Some ([], 2)"
proof -
  have a: "nextTimer fitted_state \<noteq> 0" "timers fitted_state = []"
    "resizeObserver fitted_state \<noteq> None"
    by (simp_all add: fitted_state_def init_def)
  have b: "resize_burst \<noteq> []" "\<forall>(d, p)\<in>set (tl resize_burst). d < 50"
    by (simp_all add: resize_burst_def)
  have c: "(50::nat) \<le> 50" by simp
  have w: "fit_count (measuredWidths fitted_state)
             (or_zero (map_option clientWidth (snd (last resize_burst)))) = 2"
    by code_simp
  from debounce_burst [OF a b c] w show ?thesis by auto
qed

end
